theory Spec2Isabelle
  imports
    Complex_Main
    "HOL-Library.Char_ord"
    "HOL-Library.List_Lexorder"
    "HOL-Library.Product_Lexorder"
begin

section \<open>Strings and the regular expressions of the scripts\<close>

text \<open>
  A Python \<open>str\<close> is a sequence of Unicode code points, and is modelled as the list of
  these numbers, as \<open>ord\<close> gives them; a literal of the scripts is written \<open>S ''...''\<close>.
  Lists of code points are compared as Python compares strings. The bytes of a file
  or of a response are a list of 8-bit characters.

  The classes of the patterns are those of \<open>str\<close> patterns. \<open>\d\<close> matches the decimal
  digits of every script, and \<open>int\<close> reads them: in Unicode 14.0 (CPython 3.11) they
  are 66 blocks of ten consecutive code points, each from the digit zero to the digit
  nine. \<open>\s\<close> matches the white space of Unicode. With \<open>re.IGNORECASE\<close> the letters of
  \<open>href\<close>, \<open>jpg\<close>, \<open>jpeg\<close> and \<open>png\<close> match exactly their two ASCII cases, and
  \<open>str.lower\<close> maps no other code point to one of them or to a dot.
\<close>

type_synonym str = "int list"

type_synonym bytes = string

definition S :: "string \<Rightarrow> str" where
  \<comment> \<open>the \<open>str\<close> of a literal\<close>
  "S s = map of_char s"

abbreviation SLASH :: int where
  "SLASH \<equiv> 47"

abbreviation DOT :: int where
  "DOT \<equiv> 46"

abbreviation DQUOTE :: int where
  "DQUOTE \<equiv> 34"

definition WIDE_DECIMAL_ZEROS :: "int list" where
  \<comment> \<open>the digit zero of each block of decimal digits beyond ASCII, in ascending order\<close>
  "WIDE_DECIMAL_ZEROS =
     [1632, 1776, 1984, 2406, 2534, 2662, 2790, 2918, 3046, 3174, 3302, 3430, 3558, 3664,
      3792, 3872, 4160, 4240, 6112, 6160, 6470, 6608, 6784, 6800, 6992, 7088, 7232, 7248,
      42528, 43216, 43264, 43472, 43504, 43600, 44016, 65296, 66720, 68912, 69734, 69872,
      69942, 70096, 70384, 70736, 70864, 71248, 71360, 71472, 71904, 72016, 72784, 73040,
      73120, 92768, 92864, 93008, 120782, 120792, 120802, 120812, 120822, 123200, 123632,
      125264, 130032]"

definition DECIMAL_ZEROS :: "int list" where
  "DECIMAL_ZEROS = 48 # WIDE_DECIMAL_ZEROS"

fun zero_of :: "int list \<Rightarrow> int \<Rightarrow> int option" where
  \<comment> \<open>the zero of the block that holds a code point, in an ascending list of zeros\<close>
  "zero_of [] c = None"
| "zero_of (z # zs) c =
     (if c < z then None else if c \<le> z + 9 then Some z else zero_of zs c)"

definition is_digit :: "int \<Rightarrow> bool" where
  \<comment> \<open>\<open>\d\<close> of a \<open>str\<close> pattern\<close>
  "is_digit c = (zero_of DECIMAL_ZEROS c \<noteq> None)"

definition is_ascii_digit :: "int \<Rightarrow> bool" where
  \<comment> \<open>one of \<open>0\<close>..\<open>9\<close>\<close>
  "is_ascii_digit c = (48 \<le> c \<and> c \<le> 57)"

definition is_space :: "int \<Rightarrow> bool" where
  \<comment> \<open>\<open>\s\<close> of a \<open>str\<close> pattern\<close>
  "is_space c =
     ((9 \<le> c \<and> c \<le> 13) \<or> (28 \<le> c \<and> c \<le> 32) \<or> c = 133 \<or> c = 160 \<or> c = 5760
      \<or> (8192 \<le> c \<and> c \<le> 8202) \<or> c = 8232 \<or> c = 8233 \<or> c = 8239 \<or> c = 8287
      \<or> c = 12288)"

definition digit_val :: "int \<Rightarrow> nat" where
  \<comment> \<open>the value of a decimal digit: its distance from the zero of its block\<close>
  "digit_val c = (case zero_of DECIMAL_ZEROS c of Some z \<Rightarrow> nat (c - z) | None \<Rightarrow> 0)"

definition digit_char :: "nat \<Rightarrow> int" where
  "digit_char n = 48 + int n"

definition int_of_digits :: "str \<Rightarrow> nat" where
  \<comment> \<open>\<open>int(s)\<close> on a non-empty string of decimal digits\<close>
  "int_of_digits s = foldl (\<lambda>acc c. 10 * acc + digit_val c) 0 s"

definition lower_char :: "int \<Rightarrow> int" where
  "lower_char c = (if 65 \<le> c \<and> c \<le> 90 then c + 32 else c)"

definition lower :: "str \<Rightarrow> str" where
  \<comment> \<open>\<open>str.lower()\<close> as the tests of the scripts see it: they compare with ASCII
      text, and only \<open>A\<close>..\<open>Z\<close> lower to ASCII letters\<close>
  "lower s = map lower_char s"

definition startswith :: "str \<Rightarrow> str \<Rightarrow> bool" where
  \<comment> \<open>\<open>s.startswith(p)\<close>\<close>
  "startswith s p = (take (length p) s = p)"

definition endswith :: "str \<Rightarrow> str \<Rightarrow> bool" where
  \<comment> \<open>\<open>s.endswith(p)\<close>\<close>
  "endswith s p = (length p \<le> length s \<and> drop (length s - length p) s = p)"

fun find_from :: "str \<Rightarrow> str \<Rightarrow> nat \<Rightarrow> nat option" where
  "find_from [] p i = (if p = [] then Some i else None)"
| "find_from (c # cs) p i =
     (if startswith (c # cs) p then Some i else find_from cs p (Suc i))"

definition find_str :: "str \<Rightarrow> str \<Rightarrow> nat option" where
  \<comment> \<open>\<open>s.find(p)\<close>: the lowest index where \<open>p\<close> occurs, \<open>None\<close> for Python's \<open>-1\<close>\<close>
  "find_str s p = find_from s p 0"

definition contains :: "str \<Rightarrow> str \<Rightarrow> bool" where
  \<comment> \<open>\<open>p in s\<close>\<close>
  "contains s p = (find_str s p \<noteq> None)"

definition last_segment :: "str \<Rightarrow> str" where
  \<comment> \<open>\<open>s.split("/")[-1]\<close>, which is also \<open>os.path.basename(s)\<close>\<close>
  "last_segment s = rev (takeWhile (\<lambda>c. c \<noteq> SLASH) (rev s))"

fun re_search :: "(str \<Rightarrow> 'a option) \<Rightarrow> str \<Rightarrow> 'a option" where
  \<comment> \<open>\<open>re.search\<close>: the start positions are tried from left to right, the end of the
      text included, and the first match is returned; the first argument matches the
      pattern at the start of a text\<close>
  "re_search m [] = m []"
| "re_search m (c # cs) =
     (case m (c # cs) of Some g \<Rightarrow> Some g | None \<Rightarrow> re_search m cs)"

function str_nat :: "nat \<Rightarrow> str" where
  \<comment> \<open>\<open>str(n)\<close> for a non-negative integer\<close>
  "str_nat n = (if n < 10 then [digit_char n] else str_nat (n div 10) @ [digit_char (n mod 10)])"
  by pat_completeness auto
termination
  by (relation "measure (\<lambda>n. n)") auto

definition fmt_02d :: "nat \<Rightarrow> str" where
  \<comment> \<open>the format \<open>{i:02d}\<close>: decimal, padded with zeros to two characters\<close>
  "fmt_02d i = (let s = str_nat i in replicate (2 - length s) (digit_char 0) @ s)"

section \<open>Configuration (csm_all.py)\<close>

definition FIRST_VOL :: nat where
  "FIRST_VOL = 1"

definition LAST_VOL :: nat where
  "LAST_VOL = 11"

definition TARGET_VOLUMES :: "str set" where
  "TARGET_VOLUMES = set (map fmt_02d [FIRST_VOL ..< LAST_VOL + 1])"

definition OUTPUT_ROOT :: str where
  "OUTPUT_ROOT = S ''chainsaw_man_colored''"

definition path_join :: "str \<Rightarrow> str \<Rightarrow> str" where
  \<comment> \<open>\<open>os.path.join(a, b)\<close> on POSIX\<close>
  "path_join a b =
     (if startswith b (S ''/'') then b
      else if a = [] \<or> endswith a (S ''/'') then a @ b
      else a @ S ''/'' @ b)"

definition PDF_OUTPUT :: str where
  "PDF_OUTPUT = path_join OUTPUT_ROOT (S ''pdfs'')"

section \<open>Link Extractor: \<open>parse_image_links\<close>\<close>

record link_record =
  vol :: str
  inner_path :: str
  url :: str

definition VOL_MARKER :: str where
  "VOL_MARKER = S ''Digital Colored Comics v''"

definition ROOT_MARKER :: str where
  "ROOT_MARKER = S ''Chainsaw Man (Digitally Colored)/''"

definition not_quote :: "int \<Rightarrow> bool" where
  "not_quote c = (c \<noteq> DQUOTE)"

definition image_suffix :: "str \<Rightarrow> bool" where
  \<comment> \<open>a quote-free run matches \<open>[^"]+\.(?:jpg|jpeg|png)\<close> as a whole, ignoring case\<close>
  "image_suffix run =
     list_ex (\<lambda>ext. length ext < length run \<and> endswith (lower run) ext)
       [S ''.jpg'', S ''.jpeg'', S ''.png'']"

definition match_href_at :: "str \<Rightarrow> (str \<times> str) option" where
  \<comment> \<open>a match of \<open>href="([^"]+\.(?:jpg|jpeg|png))"\<close> at the start of the text:
      group 1 and the text after the match\<close>
  "match_href_at s =
     (if startswith (lower s) (S ''href='' @ [DQUOTE]) then
        (let body = drop 6 s;
             run = takeWhile not_quote body;
             rest = dropWhile not_quote body
         in if rest \<noteq> [] \<and> image_suffix run then Some (run, tl rest) else None)
      else None)"

function findall_href :: "str \<Rightarrow> str list" where
  \<comment> \<open>\<open>re.findall(href_pattern, html, flags=re.IGNORECASE)\<close>: the matches from left to
      right, without overlap\<close>
  "findall_href [] = []"
| "findall_href (c # cs) =
     (case match_href_at (c # cs) of
        Some (g, rest) \<Rightarrow> g # findall_href rest
      | None \<Rightarrow> findall_href cs)"
  by pat_completeness auto
termination
proof (relation "measure length")
  fix c cs x2 g rest
  assume m: "match_href_at (c # cs) = Some x2" and x: "(g, rest) = x2"
  define body where "body = drop 6 (c # cs)"
  from m x have r: "rest = tl (dropWhile not_quote body)" and ne: "dropWhile not_quote body \<noteq> []"
    by (auto simp: match_href_at_def body_def Let_def split: if_splits)
  have "length (dropWhile not_quote body) \<le> length body"
    by (rule length_dropWhile_le)
  with ne have "length rest < length body"
    unfolding r by (cases "dropWhile not_quote body") auto
  also have "length body \<le> length (c # cs)"
    by (simp add: body_def)
  finally show "(rest, c # cs) \<in> measure length" by simp
qed simp_all

definition match_vol_at :: "str \<Rightarrow> str option" where
  \<comment> \<open>a match of \<open>Digital Colored Comics v(\d{2})\<close> at the start of the text: group 1\<close>
  "match_vol_at s =
     (let after = drop (length VOL_MARKER) s in
      if startswith s VOL_MARKER \<and> length after \<ge> 2
         \<and> is_digit (after ! 0) \<and> is_digit (after ! 1)
      then Some (take 2 after)
      else None)"

definition search_vol :: "str \<Rightarrow> str option" where
  \<comment> \<open>group 1 of \<open>re.search(r"Digital Colored Comics v(\d{2})", decoded)\<close>\<close>
  "search_vol decoded = re_search match_vol_at decoded"

definition full_url_of :: "str \<Rightarrow> str option" where
  \<comment> \<open>the scheme test at the head of the loop; \<open>None\<close> is the \<open>continue\<close>\<close>
  "full_url_of href =
     (if startswith href (S ''//'') then Some (S ''https:'' @ href)
      else if startswith href (S ''http://'') \<or> startswith href (S ''https://'') then Some href
      else None)"

definition inner_path_of :: "str \<Rightarrow> str" where
  "inner_path_of decoded =
     (case find_str decoded ROOT_MARKER of
        None \<Rightarrow> last_segment decoded
      | Some inner_idx \<Rightarrow> drop inner_idx decoded)"

definition link_of_href :: "(str \<Rightarrow> str) \<Rightarrow> str \<Rightarrow> link_record option" where
  \<comment> \<open>one pass of the loop body over \<open>raw_hrefs\<close>; \<open>unquote\<close> is
      \<open>urllib.parse.unquote\<close>, a library function taken as a parameter\<close>
  "link_of_href unquote href =
     (case full_url_of href of
        None \<Rightarrow> None
      | Some full_url \<Rightarrow>
          (let decoded = unquote href in
           case search_vol decoded of
             None \<Rightarrow> None
           | Some v \<Rightarrow>
               if v \<notin> TARGET_VOLUMES then None
               else Some \<lparr>vol = v, inner_path = inner_path_of decoded, url = full_url\<rparr>))"

fun links_loop :: "(str \<Rightarrow> str) \<Rightarrow> str list \<Rightarrow> link_record list \<Rightarrow> link_record list" where
  "links_loop unquote [] links_info = links_info"
| "links_loop unquote (href # hrefs) links_info =
     (case link_of_href unquote href of
        None \<Rightarrow> links_loop unquote hrefs links_info
      | Some r \<Rightarrow> links_loop unquote hrefs (links_info @ [r]))"

definition parse_image_links :: "(str \<Rightarrow> str) \<Rightarrow> str \<Rightarrow> link_record list" where
  "parse_image_links unquote html = links_loop unquote (findall_href html) []"

definition unquote_plain :: "str \<Rightarrow> str" where
  \<comment> \<open>\<open>urllib.parse.unquote\<close> on a str without \<open>%\<close>, which the library returns
      unchanged; used only at such strings\<close>
  "unquote_plain s = s"

subsection \<open>Sample pages\<close>

definition QUOTE :: str where
  "QUOTE = [DQUOTE]"

definition two_marker_href :: str where
  "two_marker_href = S ''http://h/Digital Colored Comics v99/Digital Colored Comics v05/1.jpg''"

definition two_marker_html :: str where
  "two_marker_html = S ''<a href='' @ QUOTE @ two_marker_href @ QUOTE @ S ''>1</a>''"

definition kept_href :: str where
  "kept_href = S ''https://h/a/Digital Colored Comics v11/p/07.PNG''"

definition kept_html :: str where
  "kept_html = S ''<td><a HREF='' @ QUOTE @ kept_href @ QUOTE @ S ''>07.PNG</a></td>''"

definition wide_digit_href :: str where
  "wide_digit_href =
     (S ''http://h/Digital Colored Comics v%D9%A0%D9%A5/Digital Colored Comics v05/1.jpg'')"

definition wide_digit_html :: str where
  "wide_digit_html = S ''<a href='' @ QUOTE @ wide_digit_href @ QUOTE @ S ''>1</a>''"

definition wide_digit_unquote :: "str \<Rightarrow> str" where
  \<comment> \<open>\<open>urllib.parse.unquote\<close> at \<open>wide_digit_href\<close>: \<open>%D9%A0\<close> and \<open>%D9%A5\<close> are the UTF-8
      bytes of the Arabic-Indic digits zero and five, the code points 1632 and 1637\<close>
  "wide_digit_unquote h =
     (if h = wide_digit_href
      then S ''http://h/Digital Colored Comics v'' @ [1632, 1637]
           @ S ''/Digital Colored Comics v05/1.jpg''
      else h)"

section \<open>Volume Collector: \<open>_sort_key_for_relpath\<close>, \<open>collect_images_for_volume\<close>\<close>

definition match_chapter_at :: "str \<Rightarrow> str option" where
  \<comment> \<open>a match of \<open>Chapter\s+(\d+)\<close> at the start of the text: group 1. Both runs are
      greedy, and a shorter run of spaces cannot be followed by a digit.\<close>
  "match_chapter_at s =
     (if startswith s (S ''Chapter'') then
        (let after = drop 7 s;
             spaces = takeWhile is_space after;
             digits = takeWhile is_digit (dropWhile is_space after)
         in if spaces \<noteq> [] \<and> digits \<noteq> [] then Some digits else None)
      else None)"

definition match_page_at :: "str \<Rightarrow> str option" where
  \<comment> \<open>a match of \<open>(\d+)(?=\.[^.]+$)\<close> at the start of the text: a run of digits, then a
      dot, then at least one character and no further dot up to the end\<close>
  "match_page_at s =
     (let digits = takeWhile is_digit s;
          rest = dropWhile is_digit s
      in if digits \<noteq> [] \<and> rest \<noteq> [] \<and> hd rest = DOT \<and> tl rest \<noteq> []
            \<and> DOT \<notin> set (tl rest)
         then Some digits else None)"

definition sort_key_for_relpath :: "str \<Rightarrow> nat \<times> nat \<times> str" where
  "sort_key_for_relpath rel_path =
     (let chap_match = re_search match_chapter_at rel_path;
          chap_num = (case chap_match of Some g \<Rightarrow> int_of_digits g | None \<Rightarrow> 9999);
          base = last_segment rel_path;
          page_match = re_search match_page_at base;
          page_num = (case page_match of Some g \<Rightarrow> int_of_digits g | None \<Rightarrow> 9999)
      in (chap_num, page_num, rel_path))"

definition has_image_ext :: "str \<Rightarrow> bool" where
  \<comment> \<open>\<open>name.lower().endswith((".jpg", ".jpeg", ".png"))\<close>\<close>
  "has_image_ext name =
     (endswith (lower name) (S ''.jpg'') \<or> endswith (lower name) (S ''.jpeg'')
      \<or> endswith (lower name) (S ''.png''))"

definition relpath :: "str \<Rightarrow> str \<Rightarrow> str" where
  \<comment> \<open>\<open>os.path.relpath(path, start)\<close> for a path below \<open>start\<close>, as \<open>os.walk(start)\<close>
      yields them\<close>
  "relpath path start =
     (if startswith path (start @ S ''/'') then drop (length start + 1) path else path)"

definition collect_images_for_volume ::
  "(str \<times> str list) list \<Rightarrow> str \<Rightarrow> (str \<times> str) list" where
  \<comment> \<open>the first argument is what \<open>os.walk(OUTPUT_ROOT)\<close> yields: each directory with the
      names of its files. \<open>list.sort\<close> is a stable sort by the key.\<close>
  "collect_images_for_volume walk v =
     (let tag = S ''Digital Colored Comics v'' @ v;
          image_entries =
            concat (map (\<lambda>(root, names).
                      if \<not> contains root tag then []
                      else map (\<lambda>name. let full_path = path_join root name
                                        in (relpath full_path OUTPUT_ROOT, full_path))
                             (filter has_image_ext names))
                    walk)
      in sort_key (\<lambda>t. sort_key_for_relpath (fst t)) image_entries)"

section \<open>The world of the scripts: files, directories, network\<close>

text \<open>
  Paths are strings and are compared as strings. A world holds the regular files with
  their bytes, the directories, the log of the GET requests issued for images and the
  log of the delays slept.
\<close>

datatype error =
    ConnectionError
  | HTTPError nat
  | ChunkedEncodingError
  | OSError str
  | ImageError bytes

record world =
  files :: "str \<Rightarrow> bytes option"
  dirs :: "str set"
  requests :: "str list"
  sleeps :: "real list"

definition exists_path :: "world \<Rightarrow> str \<Rightarrow> bool" where
  \<comment> \<open>\<open>os.path.exists(p)\<close>\<close>
  "exists_path w p = (files w p \<noteq> None \<or> p \<in> dirs w)"

definition dirname :: "str \<Rightarrow> str" where
  \<comment> \<open>\<open>os.path.dirname(p)\<close> on POSIX: the text up to the last slash, without trailing
      slashes unless it consists of slashes only\<close>
  "dirname p =
     (let head = take (length p - length (last_segment p)) p
      in if head \<noteq> [] \<and> \<not> list_all (\<lambda>c. c = SLASH) head
         then rev (dropWhile (\<lambda>c. c = SLASH) (rev head))
         else head)"

definition dir_chain :: "str \<Rightarrow> str list" where
  \<comment> \<open>the directories \<open>os.makedirs(name)\<close> goes through, outermost first: the prefixes
      of \<open>name\<close> that end just before a slash or at the end, and not in a slash\<close>
  "dir_chain name =
     filter (\<lambda>p. p \<noteq> [] \<and> last p \<noteq> SLASH
                \<and> (length p = length name \<or> name ! length p = SLASH))
       (map (\<lambda>n. take n name) [1 ..< length name + 1])"

fun mkdir_chain :: "str list \<Rightarrow> world \<Rightarrow> error option \<times> world" where
  "mkdir_chain [] w = (None, w)"
| "mkdir_chain (p # ps) w =
     (if files w p \<noteq> None then (Some (OSError p), w)
      else mkdir_chain ps (w\<lparr>dirs := insert p (dirs w)\<rparr>))"

definition makedirs :: "str \<Rightarrow> world \<Rightarrow> error option \<times> world" where
  \<comment> \<open>\<open>os.makedirs(name, exist_ok=True)\<close>: every directory of the chain is created
      unless it is there; a regular file on the chain raises (\<open>FileExistsError\<close> or
      \<open>NotADirectoryError\<close>, both \<open>OSError\<close>), and so does the empty name\<close>
  "makedirs name w =
     (if name = [] then (Some (OSError name), w) else mkdir_chain (dir_chain name) w)"

section \<open>Download Manager: \<open>_download_one\<close>, \<open>download_images\<close>\<close>

text \<open>
  What one attempt at an image meets is not decided by the script. The request fails;
  or the host answers with an error status; or the answer is good and the target cannot
  be opened for writing; or the chunks of the body arrive and are written one by one,
  up to the end, or up to a break of the transfer, or up to a chunk that cannot be
  written.
\<close>

datatype response =
    GetFailed
  | BadStatus nat
  | OpenFailed
  | Body "bytes list"
  | BrokenBody "bytes list"
  | WriteFailed "bytes list"

datatype status =
    Skipped str
  | Downloaded str str
  | Failed str "error option"

definition local_path_of :: "link_record \<Rightarrow> str" where
  "local_path_of item = path_join OUTPUT_ROOT (inner_path item)"

definition write_chunks :: "bytes list \<Rightarrow> bytes" where
  \<comment> \<open>the bytes written by the loop over \<open>iter_content\<close>, which skips empty chunks\<close>
  "write_chunks chunks = concat (filter (\<lambda>chunk. chunk \<noteq> []) chunks)"

fun fetch_once :: "response \<Rightarrow> str \<Rightarrow> world \<Rightarrow> error option \<times> world" where
  \<comment> \<open>the body of the \<open>try\<close>: \<open>session.get\<close>, \<open>raise_for_status\<close>, then the file is opened
      for writing and the chunks are written as they arrive; the result is the exception
      the \<open>except\<close> clause catches, if any\<close>
  "fetch_once GetFailed local_path w = (Some ConnectionError, w)"
| "fetch_once (BadStatus code) local_path w = (Some (HTTPError code), w)"
| "fetch_once OpenFailed local_path w = (Some (OSError local_path), w)"
| "fetch_once (Body chunks) local_path w =
     (None, w\<lparr>files := (files w)(local_path \<mapsto> write_chunks chunks)\<rparr>)"
| "fetch_once (BrokenBody chunks) local_path w =
     (Some ChunkedEncodingError, w\<lparr>files := (files w)(local_path \<mapsto> write_chunks chunks)\<rparr>)"
| "fetch_once (WriteFailed chunks) local_path w =
     (Some (OSError local_path), w\<lparr>files := (files w)(local_path \<mapsto> write_chunks chunks)\<rparr>)"

fun fetch_attempts ::
  "(nat \<Rightarrow> str \<Rightarrow> response) \<Rightarrow> nat \<Rightarrow> real \<Rightarrow> link_record \<Rightarrow> str
   \<Rightarrow> nat list \<Rightarrow> error option \<Rightarrow> world \<Rightarrow> status \<times> world" where
  \<comment> \<open>the loop \<open>for attempt in range(1, retries + 1)\<close>; the response to a GET is
      \<open>http_get n u\<close>, where \<open>n\<close> counts the requests issued before it\<close>
  "fetch_attempts http_get retries backoff_base item local_path [] last_err w =
     (Failed (url item) last_err, w)"
| "fetch_attempts http_get retries backoff_base item local_path (attempt # later) last_err w =
     (let r = http_get (length (requests w)) (url item);
          w1 = w\<lparr>requests := requests w @ [url item]\<rparr>
      in case fetch_once r local_path w1 of
           (None, w2) \<Rightarrow> (Downloaded (vol item) (inner_path item), w2)
         | (Some e, w2) \<Rightarrow>
             if attempt < retries
             then fetch_attempts http_get retries backoff_base item local_path later (Some e)
                    (w2\<lparr>sleeps := sleeps w2 @ [backoff_base * real attempt]\<rparr>)
             else (Failed (url item) (Some e), w2))"

definition download_one ::
  "(nat \<Rightarrow> str \<Rightarrow> response) \<Rightarrow> nat \<Rightarrow> real \<Rightarrow> link_record \<Rightarrow> world
   \<Rightarrow> (error + status) \<times> world" where
  "download_one http_get retries backoff_base item w =
     (let local_path = path_join OUTPUT_ROOT (inner_path item)
      in case makedirs (dirname local_path) w of
           (Some e, w1) \<Rightarrow> (Inl e, w1)
         | (None, w1) \<Rightarrow>
             if exists_path w1 local_path then (Inr (Skipped local_path), w1)
             else (case fetch_attempts http_get retries backoff_base item local_path
                          [1 ..< retries + 1] None w1 of
                     (st, w2) \<Rightarrow> (Inr st, w2)))"

fun download_all ::
  "(nat \<Rightarrow> str \<Rightarrow> response) \<Rightarrow> link_record list \<Rightarrow> world
   \<Rightarrow> (error + status) list \<times> world" where
  \<comment> \<open>one future per item, each run with the default \<open>retries = 3\<close> and
      \<open>backoff_base = 1.0\<close>; the futures are taken one after the other, in list order\<close>
  "download_all http_get [] w = ([], w)"
| "download_all http_get (item # items) w =
     (case download_one http_get 3 1 item w of
        (r, w1) \<Rightarrow> (case download_all http_get items w1 of (rs, w2) \<Rightarrow> (r # rs, w2)))"

fun first_raised :: "(error + 'a) list \<Rightarrow> error + 'a list" where
  \<comment> \<open>\<open>fut.result()\<close> over the futures: the first stored exception is raised again\<close>
  "first_raised [] = Inr []"
| "first_raised (Inl e # rs) = Inl e"
| "first_raised (Inr x # rs) = (case first_raised rs of Inl e \<Rightarrow> Inl e | Inr xs \<Rightarrow> Inr (x # xs))"

definition download_images ::
  "(nat \<Rightarrow> str \<Rightarrow> response) \<Rightarrow> link_record list \<Rightarrow> world
   \<Rightarrow> (error + status list) \<times> world" where
  "download_images http_get links_info w =
     (if links_info = [] then (Inr [], w)
      else case download_all http_get links_info w of (rs, w1) \<Rightarrow> (first_raised rs, w1))"

section \<open>The libraries the scripts call\<close>

text \<open>
  What the libraries return is not decided by the scripts: the page fetch, the
  percent-decoding, the responses of the image hosts, the directory listing, the image
  decoder and the two encoders are parameters of the model.
\<close>

record image =
  mode :: str
  pixels :: bytes

record env =
  fetch_page :: "error + str"
  unquote_fn :: "str \<Rightarrow> str"
  http_response :: "nat \<Rightarrow> str \<Rightarrow> response"
  os_walk :: "world \<Rightarrow> (str \<times> str list) list"
  image_open :: "bytes \<Rightarrow> error + image"
  convert_rgb :: "image \<Rightarrow> error + image"
  save_pdf :: "image list \<Rightarrow> error + bytes"

definition fetch_html :: "env \<Rightarrow> error + str" where
  \<comment> \<open>\<open>requests.get(url)\<close> followed by \<open>raise_for_status()\<close>: the text of the page,
      or the exception of either call\<close>
  "fetch_html e = fetch_page e"

section \<open>PDF Renderer: \<open>build_pdf_for_volume\<close>\<close>

datatype pdf_outcome =
    NoImages
  | PdfExists
  | NoValidImages
  | PdfSaved str "image list"

definition open_rgb :: "env \<Rightarrow> world \<Rightarrow> str \<Rightarrow> error + image" where
  \<comment> \<open>the body of the \<open>try\<close>: \<open>Image.open(full_path)\<close> on the bytes of the file, then
      \<open>convert("RGB")\<close> unless the mode is \<open>RGB\<close>\<close>
  "open_rgb e w full_path =
     (case files w full_path of
        None \<Rightarrow> Inl (OSError full_path)
      | Some bytes \<Rightarrow>
          (case image_open e bytes of
             Inl err \<Rightarrow> Inl err
           | Inr img \<Rightarrow> if mode img \<noteq> S ''RGB'' then convert_rgb e img else Inr img))"

fun open_images :: "env \<Rightarrow> world \<Rightarrow> (str \<times> str) list \<Rightarrow> image list \<Rightarrow> image list" where
  "open_images e w [] images = images"
| "open_images e w ((rel_path, full_path) # entries) images =
     (case open_rgb e w full_path of
        Inl err \<Rightarrow> open_images e w entries images
      | Inr img \<Rightarrow> open_images e w entries (images @ [img]))"

definition build_pdf_for_volume :: "env \<Rightarrow> world \<Rightarrow> str \<Rightarrow> (error + pdf_outcome) \<times> world" where
  "build_pdf_for_volume e w v =
     (let images_entries = collect_images_for_volume (os_walk e w) v in
      if images_entries = [] then (Inr NoImages, w)
      else
        let pdf_name = S ''Chainsaw_Man_Digitally_Colored_v'' @ v @ S ''.pdf'';
            pdf_path = path_join PDF_OUTPUT pdf_name
        in if exists_path w pdf_path then (Inr PdfExists, w)
           else
             (case open_images e w images_entries [] of
                [] \<Rightarrow> (Inr NoValidImages, w)
              | first # appended \<Rightarrow>
                  (case save_pdf e (first # appended) of
                     Inl err \<Rightarrow> (Inl err, w)
                   | Inr bytes \<Rightarrow>
                       (Inr (PdfSaved pdf_path (first # appended)),
                        w\<lparr>files := (files w)(pdf_path \<mapsto> bytes)\<rparr>))))"

section \<open>The script csm_all.py: \<open>main\<close>\<close>

fun build_pdfs :: "env \<Rightarrow> str list \<Rightarrow> world \<Rightarrow> (error + pdf_outcome list) \<times> world" where
  \<comment> \<open>the loop \<open>for vol in vols_present\<close>; an exception leaves the loop\<close>
  "build_pdfs e [] w = (Inr [], w)"
| "build_pdfs e (v # vs) w =
     (case build_pdf_for_volume e w v of
        (Inl err, w1) \<Rightarrow> (Inl err, w1)
      | (Inr out, w1) \<Rightarrow>
          (case build_pdfs e vs w1 of
             (Inl err, w2) \<Rightarrow> (Inl err, w2)
           | (Inr outs, w2) \<Rightarrow> (Inr (out # outs), w2)))"

definition main :: "env \<Rightarrow> world \<Rightarrow> (error + status list \<times> pdf_outcome list) \<times> world" where
  "main e w =
     (case fetch_html e of
        Inl err \<Rightarrow> (Inl err, w)
      | Inr html \<Rightarrow>
          (let links_info = sort_key (\<lambda>x. (vol x, inner_path x))
                              (parse_image_links (unquote_fn e) html)
           in case download_images (http_response e) links_info w of
                (Inl err, w1) \<Rightarrow> (Inl err, w1)
              | (Inr statuses, w1) \<Rightarrow>
                  (let vols_present = sort (remdups (map vol links_info))
                   in case build_pdfs e vols_present w1 of
                        (Inl err, w2) \<Rightarrow> (Inl err, w2)
                      | (Inr outs, w2) \<Rightarrow> (Inr (statuses, outs), w2))))"

section \<open>EPUB Renderer (csm_epub.py): \<open>build_epub_for_volume\<close>\<close>

definition EPUB_OUTPUT :: str where
  "EPUB_OUTPUT = path_join OUTPUT_ROOT (S ''epubs'')"

definition guess_mime :: "str \<Rightarrow> str" where
  "guess_mime path = (if endswith (lower path) (S ''.png'') then S ''image/png'' else S ''image/jpeg'')"

definition match_label_at :: "str \<Rightarrow> str option" where
  \<comment> \<open>a match of \<open>(Chapter\s+\d+[^/]*)\<close> at the start of the text: group 1\<close>
  "match_label_at s =
     (if startswith s (S ''Chapter'') then
        (let after = drop 7 s;
             spaces = takeWhile is_space after;
             after_spaces = dropWhile is_space after;
             digits = takeWhile is_digit after_spaces;
             tail = takeWhile (\<lambda>c. c \<noteq> SLASH) (dropWhile is_digit after_spaces)
         in if spaces \<noteq> [] \<and> digits \<noteq> [] then Some (S ''Chapter'' @ spaces @ digits @ tail)
            else None)
      else None)"

definition extract_chapter_label :: "str \<Rightarrow> str" where
  "extract_chapter_label rel_path =
     (case re_search match_label_at rel_path of Some g \<Rightarrow> g | None \<Rightarrow> S ''Pages'')"

fun add_to_chapter ::
  "(str \<times> (str \<times> str) list) list \<Rightarrow> str \<Rightarrow> str \<times> str
   \<Rightarrow> (str \<times> (str \<times> str) list) list" where
  \<comment> \<open>the dictionary \<open>chapters\<close> keeps its keys in the order of their insertion: a new
      label goes to the end, a known label has the entry appended to its list\<close>
  "add_to_chapter [] chap_label entry = [(chap_label, [entry])]"
| "add_to_chapter ((l, pages) # chapters) chap_label entry =
     (if l = chap_label then (l, pages @ [entry]) # chapters
      else (l, pages) # add_to_chapter chapters chap_label entry)"

fun group_chapters ::
  "(str \<times> str) list \<Rightarrow> (str \<times> (str \<times> str) list) list
   \<Rightarrow> (str \<times> (str \<times> str) list) list" where
  "group_chapters [] chapters = chapters"
| "group_chapters ((rel_path, full_path) # entries) chapters =
     group_chapters entries
       (add_to_chapter chapters (extract_chapter_label rel_path) (rel_path, full_path))"

definition splitext_ext :: "str \<Rightarrow> str" where
  \<comment> \<open>\<open>os.path.splitext(p)[1]\<close>: from the last dot of the last segment, when a
      character other than a dot stands before it\<close>
  "splitext_ext p =
     (let base = last_segment p;
          ext_tail = rev (takeWhile (\<lambda>c. c \<noteq> DOT) (rev base));
          stem = take (length base - length ext_tail - 1) base
      in if DOT \<in> set base \<and> list_ex (\<lambda>c. c \<noteq> DOT) stem
         then DOT # ext_tail else [])"

record image_item =
  item_uid :: str
  item_file_name :: str
  media_type :: str
  content :: bytes

record page_html =
  page_uid :: str
  page_file_name :: str
  page_title :: str
  page_image :: image_item
  page_source :: "str \<times> str"

record toc_link =
  link_href :: str
  link_title :: str
  link_uid :: str

record book =
  book_identifier :: str
  book_title :: str
  toc :: "toc_link list"
  spine :: "page_html list"

definition make_page ::
  "str \<Rightarrow> nat \<Rightarrow> str \<Rightarrow> nat \<Rightarrow> str \<times> str \<Rightarrow> bytes \<Rightarrow> page_html" where
  \<comment> \<open>the image resource and the XHTML page of one image; \<open>page_source\<close> records the
      entry whose bytes the resource holds\<close>
  "make_page v chapter_index chap_label page_index entry bytes =
     (let img_id = S ''img_v'' @ v @ S ''_'' @ str_nat chapter_index @ S ''_'' @ str_nat page_index;
          img_file_name = S ''images/v'' @ v @ S ''/'' @ img_id @ splitext_ext (snd entry)
      in \<lparr>page_uid = S ''page_v'' @ v @ S ''_'' @ str_nat chapter_index @ S ''_'' @ str_nat page_index,
          page_file_name =
            (S ''text/v'') @ v @ S ''_'' @ str_nat chapter_index @ S ''_'' @ str_nat page_index @ S ''.xhtml'',
          page_title = chap_label @ S '' - '' @ str_nat page_index,
          page_image = \<lparr>item_uid = img_id, item_file_name = img_file_name,
                         media_type = guess_mime (snd entry), content = bytes\<rparr>,
          page_source = entry\<rparr>)"

fun chapter_pages ::
  "world \<Rightarrow> str \<Rightarrow> nat \<Rightarrow> str \<Rightarrow> nat \<Rightarrow> (str \<times> str) list
   \<Rightarrow> error + page_html list" where
  \<comment> \<open>the inner loop \<open>for page_index, (rel_path, full_path) in enumerate(pages, start=1)\<close>;
      \<open>open(full_path, "rb")\<close> raises when the file is not there\<close>
  "chapter_pages w v chapter_index chap_label page_index [] = Inr []"
| "chapter_pages w v chapter_index chap_label page_index ((rel_path, full_path) # pages) =
     (case files w full_path of
        None \<Rightarrow> Inl (OSError full_path)
      | Some bytes \<Rightarrow>
          (case chapter_pages w v chapter_index chap_label (Suc page_index) pages of
             Inl err \<Rightarrow> Inl err
           | Inr ps \<Rightarrow>
               Inr (make_page v chapter_index chap_label page_index (rel_path, full_path) bytes
                    # ps)))"

fun chapters_loop ::
  "world \<Rightarrow> str \<Rightarrow> nat \<Rightarrow> (str \<times> (str \<times> str) list) list
   \<Rightarrow> page_html list \<Rightarrow> toc_link list \<Rightarrow> error + page_html list \<times> toc_link list" where
  \<comment> \<open>the outer loop \<open>for chap_label, pages in chapters.items()\<close>; the third argument
      is \<open>chapter_index\<close> before its increment\<close>
  "chapters_loop w v chapter_index [] spine_items toc_links = Inr (spine_items, toc_links)"
| "chapters_loop w v chapter_index ((chap_label, pages) # chapters) spine_items toc_links =
     (case chapter_pages w v (Suc chapter_index) chap_label 1 pages of
        Inl err \<Rightarrow> Inl err
      | Inr ps \<Rightarrow>
          chapters_loop w v (Suc chapter_index) chapters (spine_items @ ps)
            (case ps of
               [] \<Rightarrow> toc_links
             | first_page_item # _ \<Rightarrow>
                 toc_links @ [\<lparr>link_href = page_file_name first_page_item,
                                link_title = chap_label,
                                link_uid = S ''toc_v'' @ v @ S ''_chap_'' @ str_nat (Suc chapter_index)\<rparr>]))"

datatype epub_outcome =
    EpubNoImages
  | EpubSaved str book

definition build_epub_for_volume ::
  "env \<Rightarrow> (book \<Rightarrow> error + bytes) \<Rightarrow> world \<Rightarrow> str \<Rightarrow> (error + epub_outcome) \<times> world" where
  \<comment> \<open>the second argument is \<open>epub.write_epub\<close>: the bytes of the package, or its
      exception\<close>
  "build_epub_for_volume e write_epub w v =
     (let image_entries = collect_images_for_volume (os_walk e w) v in
      if image_entries = [] then (Inr EpubNoImages, w)
      else
        let chapters = group_chapters image_entries [] in
        case chapters_loop w v 0 chapters [] [] of
          Inl err \<Rightarrow> (Inl err, w)
        | Inr (spine_items, toc_links) \<Rightarrow>
            (let bk = \<lparr>book_identifier = S ''chainsaw-man-colored-v'' @ v,
                       book_title = S ''Chainsaw Man (Digitally Colored) v'' @ v,
                       toc = toc_links, spine = spine_items\<rparr>;
                 epub_name = S ''Chainsaw_Man_Digitally_Colored_v'' @ v @ S ''.epub'';
                 epub_path = path_join EPUB_OUTPUT epub_name
             in case write_epub bk of
                  Inl err \<Rightarrow> (Inl err, w)
                | Inr bytes \<Rightarrow>
                    (Inr (EpubSaved epub_path bk), w\<lparr>files := (files w)(epub_path \<mapsto> bytes)\<rparr>)))"

subsection \<open>The script csm_epub.py: \<open>main\<close>\<close>

fun build_epubs ::
  "env \<Rightarrow> (book \<Rightarrow> error + bytes) \<Rightarrow> str list \<Rightarrow> world
   \<Rightarrow> (error + epub_outcome list) \<times> world" where
  \<comment> \<open>the loop \<open>for vol in vols\<close>; an exception leaves the loop\<close>
  "build_epubs e write_epub [] w = (Inr [], w)"
| "build_epubs e write_epub (v # vs) w =
     (case build_epub_for_volume e write_epub w v of
        (Inl err, w1) \<Rightarrow> (Inl err, w1)
      | (Inr out, w1) \<Rightarrow>
          (case build_epubs e write_epub vs w1 of
             (Inl err, w2) \<Rightarrow> (Inl err, w2)
           | (Inr outs, w2) \<Rightarrow> (Inr (out # outs), w2)))"

definition epub_main ::
  "env \<Rightarrow> (book \<Rightarrow> error + bytes) \<Rightarrow> world \<Rightarrow> (error + epub_outcome list) \<times> world" where
  \<comment> \<open>\<open>main\<close> of csm_epub.py: no page is fetched, every volume of the range is tried\<close>
  "epub_main e write_epub w =
     (let vols = map fmt_02d [FIRST_VOL ..< LAST_VOL + 1]
      in build_epubs e write_epub vols w)"

section \<open>Notions of the statements and sample inputs\<close>

definition sample_html :: str where
  "sample_html = S ''href='' @ QUOTE
     @ S ''//cdn/x/Digital Colored Comics v05/Chainsaw Man (Digitally Colored)/Chapter 2 - Foo/03.jpg''
     @ QUOTE"

definition bare_href :: str where
  "bare_href = S ''http://h/Digital Colored Comics v03/x/09.jpg''"

definition bare_html :: str where
  "bare_html = S ''<a href='' @ QUOTE @ bare_href @ QUOTE @ S ''>09</a>''"

definition same_name_html :: str where
  "same_name_html =
     (S ''<a href='') @ QUOTE @ S ''http://h/Digital Colored Comics v01/x/1.jpg'' @ QUOTE @ S ''>x</a>''
     @ S ''<a href='' @ QUOTE @ S ''http://h/Digital Colored Comics v01/y/1.jpg'' @ QUOTE @ S ''>y</a>''"

definition chapter_of :: "str \<Rightarrow> nat option" where
  \<comment> \<open>the chapter number of a path: the digits after the leftmost \<open>Chapter\<close> that is
      followed by white space and a digit\<close>
  "chapter_of rel_path = map_option int_of_digits (re_search match_chapter_at rel_path)"

definition page_of :: "str \<Rightarrow> nat option" where
  \<comment> \<open>the page number of a path: the digits of the file name that end just before its
      extension\<close>
  "page_of rel_path = map_option int_of_digits (re_search match_page_at (last_segment rel_path))"

definition both_numbers :: "str \<times> str \<Rightarrow> bool" where
  "both_numbers t = (chapter_of (fst t) \<noteq> None \<and> page_of (fst t) \<noteq> None)"

definition cover_walk :: "(str \<times> str list) list" where
  "cover_walk =
     [(S ''chainsaw_man_colored/Digital Colored Comics v01/Chapter 2 - B'', [S ''01.jpg'']),
      (S ''chainsaw_man_colored/Digital Colored Comics v01/Chapter 1 - A'', [S ''cover.jpg'', S ''02.png'']),
      (S ''chainsaw_man_colored/Digital Colored Comics v02/Chapter 9 - C'', [S ''01.jpg''])]"

definition skip_world :: world where
  "skip_world =
     \<lparr>files = [S ''chainsaw_man_colored/Chainsaw Man (Digitally Colored)/01.jpg'' \<mapsto> ''JFIF''],
      dirs = {S ''chainsaw_man_colored''},
      requests = [], sleeps = []\<rparr>"

definition skip_item :: link_record where
  "skip_item = \<lparr>vol = S ''01'', inner_path = S ''Chainsaw Man (Digitally Colored)/01.jpg'',
                 url = S ''https://h/01.jpg''\<rparr>"

definition no_network :: "nat \<Rightarrow> str \<Rightarrow> response" where
  "no_network n u = GetFailed"

definition no_file_is_dir :: "world \<Rightarrow> bool" where
  \<comment> \<open>no path is a regular file and a directory at once\<close>
  "no_file_is_dir w = (\<forall>p. files w p \<noteq> None \<longrightarrow> p \<notin> dirs w)"

definition is_failed :: "status \<Rightarrow> bool" where
  "is_failed st = (case st of Failed u e \<Rightarrow> True | _ \<Rightarrow> False)"


definition empty_world :: world where
  "empty_world = \<lparr>files = Map.empty, dirs = {}, requests = [], sleeps = []\<rparr>"

definition fresh_item :: link_record where
  "fresh_item = \<lparr>vol = S ''02'', inner_path = S ''Chainsaw Man (Digitally Colored)/07.jpg'',
                  url = S ''https://h/07.jpg''\<rparr>"

definition fresh_world :: world where
  \<comment> \<open>the empty world after the directories of \<open>fresh_item\<close> are created\<close>
  "fresh_world =
     \<lparr>files = Map.empty,
      dirs = {S ''chainsaw_man_colored'', S ''chainsaw_man_colored/Chainsaw Man (Digitally Colored)''},
      requests = [], sleeps = []\<rparr>"

definition downloaded_world :: world where
  \<comment> \<open>the empty world after \<open>fresh_item\<close> is downloaded at the first attempt\<close>
  "downloaded_world =
     \<lparr>files = [S ''chainsaw_man_colored/Chainsaw Man (Digitally Colored)/07.jpg'' \<mapsto> ''JFIF''],
      dirs = {S ''chainsaw_man_colored'', S ''chainsaw_man_colored/Chainsaw Man (Digitally Colored)''},
      requests = [S ''https://h/07.jpg''], sleeps = []\<rparr>"



definition always_ok :: "nat \<Rightarrow> str \<Rightarrow> response" where
  "always_ok n u = Body [''JF'', [], ''IF'']"

definition third_time_ok :: "nat \<Rightarrow> str \<Rightarrow> response" where
  "third_time_ok n u = (if n < 2 then GetFailed else Body [''JFIF''])"

definition opened_image :: "env \<Rightarrow> world \<Rightarrow> str \<times> str \<Rightarrow> image option" where
  \<comment> \<open>the image of an entry when it opens, converted to \<open>RGB\<close> where needed\<close>
  "opened_image e w t = (case open_rgb e w (snd t) of Inl err \<Rightarrow> None | Inr img \<Rightarrow> Some img)"

definition pdf_path_of :: "str \<Rightarrow> str" where
  "pdf_path_of v = path_join PDF_OUTPUT (S ''Chainsaw_Man_Digitally_Colored_v'' @ v @ S ''.pdf'')"

definition two_page_walk :: "world \<Rightarrow> (str \<times> str list) list" where
  "two_page_walk w =
     [(S ''chainsaw_man_colored/Chainsaw Man (Digitally Colored)/Digital Colored Comics v01/Chapter 1 - Dog'',
       [S ''02.jpg'', S ''01.jpg'', S ''03.jpg''])]"

definition two_page_world :: world where
  "two_page_world =
     \<lparr>files =
        [S ''chainsaw_man_colored/Chainsaw Man (Digitally Colored)/Digital Colored Comics v01/Chapter 1 - Dog/01.jpg''
           \<mapsto> ''one'',
         (S ''chainsaw_man_colored/Chainsaw Man (Digitally Colored)/Digital Colored Comics v01/Chapter 1 - Dog/02.jpg'')
           \<mapsto> ''bad'',
         (S ''chainsaw_man_colored/Chainsaw Man (Digitally Colored)/Digital Colored Comics v01/Chapter 1 - Dog/03.jpg'')
           \<mapsto> ''three''],
      dirs = {}, requests = [], sleeps = []\<rparr>"

definition two_page_env :: env where
  "two_page_env =
     \<lparr>fetch_page = Inl ConnectionError,
      unquote_fn = unquote_plain,
      http_response = (\<lambda>n u. GetFailed),
      os_walk = two_page_walk,
      image_open = (\<lambda>bytes. if bytes = ''bad'' then Inl (ImageError bytes)
                              else Inr \<lparr>mode = S ''L'', pixels = bytes\<rparr>),
      convert_rgb = (\<lambda>img. Inr (img\<lparr>mode := S ''RGB''\<rparr>)),
      save_pdf = (\<lambda>imgs. Inr (concat (map pixels imgs)))\<rparr>"

definition one_page_html :: str where
  "one_page_html = S ''<a href='' @ QUOTE
     @ S ''//h/view?file=Chainsaw Man (Digitally Colored)/Digital Colored Comics v01/Chapter 1 - Dog/01.jpg''
     @ QUOTE @ S ''>01.jpg</a>''"

definition one_page_walk :: "world \<Rightarrow> (str \<times> str list) list" where
  \<comment> \<open>the listing of a tree that holds the page once it is downloaded\<close>
  "one_page_walk w =
     (if files w (S ''chainsaw_man_colored/Chainsaw Man (Digitally Colored)/Digital Colored Comics v01/Chapter 1 - Dog/01.jpg'')
           \<noteq> None
      then [(S ''chainsaw_man_colored/Chainsaw Man (Digitally Colored)/Digital Colored Comics v01/Chapter 1 - Dog'',
             [S ''01.jpg''])]
      else [])"

definition one_page_world :: world where
  \<comment> \<open>the tree with the one page downloaded\<close>
  "one_page_world =
     \<lparr>files =
        [S ''chainsaw_man_colored/Chainsaw Man (Digitally Colored)/Digital Colored Comics v01/Chapter 1 - Dog/01.jpg''
           \<mapsto> ''JFIF''],
      dirs = {S ''chainsaw_man_colored'', S ''chainsaw_man_colored/pdfs''},
      requests = [], sleeps = []\<rparr>"

definition save_fails_env :: env where
  \<comment> \<open>everything succeeds but the PDF encoder, which finds the image truncated\<close>
  "save_fails_env =
     \<lparr>fetch_page = Inr one_page_html,
      unquote_fn = unquote_plain,
      http_response = (\<lambda>n u. Body [''JFIF'']),
      os_walk = one_page_walk,
      image_open = (\<lambda>bytes. Inr \<lparr>mode = S ''RGB'', pixels = bytes\<rparr>),
      convert_rgb = (\<lambda>img. Inr img),
      save_pdf = (\<lambda>imgs. Inl (ImageError ''truncated''))\<rparr>"

definition fetches_fail_env :: env where
  \<comment> \<open>the page is fetched and every request for an image fails\<close>
  "fetches_fail_env =
     \<lparr>fetch_page = Inr one_page_html,
      unquote_fn = unquote_plain,
      http_response = (\<lambda>n u. if n = 1 then BadStatus 503 else GetFailed),
      os_walk = one_page_walk,
      image_open = (\<lambda>bytes. Inl (ImageError bytes)),
      convert_rgb = (\<lambda>img. Inr img),
      save_pdf = (\<lambda>imgs. Inl (ImageError ''truncated''))\<rparr>"


definition vols_present :: "link_record list \<Rightarrow> str list" where
  "vols_present links_info = sort (remdups (map vol links_info))"








definition first_seen :: "'a list \<Rightarrow> 'a list" where
  \<comment> \<open>the distinct elements of a list in the order of their first occurrence\<close>
  "first_seen xs = foldl (\<lambda>seen x. if x \<in> set seen then seen else seen @ [x]) [] xs"

definition label_of :: "str \<times> str \<Rightarrow> str" where
  "label_of t = extract_chapter_label (fst t)"

fun contiguous :: "'a list \<Rightarrow> bool" where
  \<comment> \<open>equal elements stand together: an element does not come back after another one\<close>
  "contiguous [] = True"
| "contiguous (x # xs) = (x \<notin> set (dropWhile (\<lambda>y. y = x) xs) \<and> contiguous xs)"

definition epub_path_of :: "str \<Rightarrow> str" where
  "epub_path_of v = path_join EPUB_OUTPUT (S ''Chainsaw_Man_Digitally_Colored_v'' @ v @ S ''.epub'')"

definition spine_sources_of :: "error + epub_outcome \<Rightarrow> (str \<times> str) list option" where
  \<comment> \<open>the images of the spine of a saved book, in reading order\<close>
  "spine_sources_of r =
     (case r of Inr (EpubSaved path bk) \<Rightarrow> Some (map page_source (spine bk)) | _ \<Rightarrow> None)"

definition toc_of :: "error + epub_outcome \<Rightarrow> (str \<times> str) list option" where
  \<comment> \<open>the titles of the table of contents of a saved book, each with its target\<close>
  "toc_of r =
     (case r of
        Inr (EpubSaved path bk) \<Rightarrow> Some (map (\<lambda>link. (link_title link, link_href link)) (toc bk))
      | _ \<Rightarrow> None)"

definition split_walk :: "world \<Rightarrow> (str \<times> str list) list" where
  \<comment> \<open>a volume in which two directories carry the chapter number 1\<close>
  "split_walk w =
     [(S ''chainsaw_man_colored/Digital Colored Comics v01/Chapter 1 - A'', [S ''02.jpg'']),
      (S ''chainsaw_man_colored/Digital Colored Comics v01/Chapter 1 - B'', [S ''01.jpg'', S ''03.jpg''])]"

definition split_world :: world where
  "split_world =
     \<lparr>files =
        [S ''chainsaw_man_colored/Digital Colored Comics v01/Chapter 1 - A/02.jpg'' \<mapsto> ''a2'',
         (S ''chainsaw_man_colored/Digital Colored Comics v01/Chapter 1 - B/01.jpg'') \<mapsto> ''b1'',
         (S ''chainsaw_man_colored/Digital Colored Comics v01/Chapter 1 - B/03.jpg'') \<mapsto> ''b3''],
      dirs = {}, requests = [], sleeps = []\<rparr>"

definition split_env :: env where
  "split_env =
     \<lparr>fetch_page = Inl ConnectionError,
      unquote_fn = unquote_plain,
      http_response = (\<lambda>n u. GetFailed),
      os_walk = split_walk,
      image_open = (\<lambda>bytes. Inr \<lparr>mode = S ''RGB'', pixels = bytes\<rparr>),
      convert_rgb = (\<lambda>img. Inr img),
      save_pdf = (\<lambda>imgs. Inr [])\<rparr>"

definition zip_writer :: "book \<Rightarrow> error + bytes" where
  "zip_writer bk = Inr ''PK''"

definition split_entries :: "(str \<times> str) list" where
  "split_entries =
     [(S ''Digital Colored Comics v01/Chapter 1 - B/01.jpg'',
       (S ''chainsaw_man_colored/Digital Colored Comics v01/Chapter 1 - B/01.jpg'')),
      (S ''Digital Colored Comics v01/Chapter 1 - A/02.jpg'',
       (S ''chainsaw_man_colored/Digital Colored Comics v01/Chapter 1 - A/02.jpg'')),
      (S ''Digital Colored Comics v01/Chapter 1 - B/03.jpg'',
       (S ''chainsaw_man_colored/Digital Colored Comics v01/Chapter 1 - B/03.jpg''))]"

section \<open>Properties of the Link Extractor\<close>

declare str_nat.simps [simp del]

lemma S_inject [simp]: "S a = S b \<longleftrightarrow> a = b"
proof -
  have "inj (of_char :: char \<Rightarrow> int)"
    by (rule injI) simp
  then show ?thesis
    unfolding S_def by (rule inj_map_eq_map)
qed

lemma length_S [simp]: "length (S s) = length s"
  by (simp add: S_def)

lemma S_Nil [simp]: "S s = [] \<longleftrightarrow> s = []" "[] = S s \<longleftrightarrow> s = []"
  by (auto simp: S_def)


lemma startswith_iff: "startswith s p \<longleftrightarrow> (\<exists>t. s = p @ t)"
  unfolding startswith_def
  by (metis append_eq_conv_conj append_take_drop_id)

lemma re_search_None:
  "re_search m s = None \<longleftrightarrow> (\<forall>pre t. s = pre @ t \<longrightarrow> m t = None)"
proof (induction s)
  case Nil
  then show ?case by simp
next
  case (Cons c cs)
  show ?case
  proof (cases "m (c # cs)")
    case (Some g)
    then show ?thesis by (metis append_Nil option.distinct(1) option.simps(5) re_search.simps(2))
  next
    case None
    then have "(\<forall>pre t. c # cs = pre @ t \<longrightarrow> m t = None) \<longleftrightarrow> (\<forall>pre t. cs = pre @ t \<longrightarrow> m t = None)"
      by (auto simp: Cons_eq_append_conv)
    with None Cons.IH show ?thesis by simp
  qed
qed

lemma re_search_Some:
  "re_search m s = Some g \<longleftrightarrow>
     (\<exists>pre t. s = pre @ t \<and> m t = Some g
        \<and> (\<forall>pre' t'. s = pre' @ t' \<and> length pre' < length pre \<longrightarrow> m t' = None))"
  (is "_ \<longleftrightarrow> ?R s")
proof (induction s)
  case Nil
  then show ?case by simp
next
  case (Cons c cs)
  show ?case
  proof (cases "m (c # cs)")
    case (Some g')
    show ?thesis
    proof
      assume "re_search m (c # cs) = Some g"
      with Some have "m (c # cs) = Some g" by simp
      then show "?R (c # cs)"
        by (intro exI [of _ "[]"] exI [of _ "c # cs"]) simp
    next
      assume "?R (c # cs)"
      then obtain pre t where pt: "c # cs = pre @ t" "m t = Some g"
        and mn: "\<forall>pre' t'. c # cs = pre' @ t' \<and> length pre' < length pre \<longrightarrow> m t' = None"
        by blast
      have "pre = []"
      proof (rule ccontr)
        assume "pre \<noteq> []"
        then have "c # cs = [] @ (c # cs) \<and> length ([] :: str) < length pre" by simp
        with mn have "m (c # cs) = None" by blast
        with Some show False by simp
      qed
      with pt have "m (c # cs) = Some g" by simp
      then show "re_search m (c # cs) = Some g" by simp
    qed
  next
    case None
    have "?R (c # cs) \<longleftrightarrow> ?R cs"
    proof
      assume "?R (c # cs)"
      then obtain pre t where pt: "c # cs = pre @ t" "m t = Some g"
        and mn: "\<forall>pre' t'. c # cs = pre' @ t' \<and> length pre' < length pre \<longrightarrow> m t' = None"
        by blast
      from pt None obtain p where p: "pre = c # p" "cs = p @ t"
        by (cases pre) auto
      have "m t' = None" if "cs = pre' @ t' \<and> length pre' < length p" for pre' t'
      proof -
        from that p have "c # cs = (c # pre') @ t' \<and> length (c # pre') < length pre" by simp
        with mn show ?thesis by blast
      qed
      with p pt(2) show "?R cs" by blast
    next
      assume "?R cs"
      then obtain p t where pt: "cs = p @ t" "m t = Some g"
        and mn: "\<forall>pre' t'. cs = pre' @ t' \<and> length pre' < length p \<longrightarrow> m t' = None"
        by blast
      have "m t' = None" if "c # cs = pre' @ t' \<and> length pre' < length (c # p)" for pre' t'
      proof (cases pre')
        case Nil
        with that None show ?thesis by simp
      next
        case (Cons a q)
        with that have "cs = q @ t' \<and> length q < length p" by simp
        with mn show ?thesis by blast
      qed
      moreover have "c # cs = (c # p) @ t" using pt by simp
      ultimately show "?R (c # cs)" using pt(2) by blast
    qed
    with None Cons.IH show ?thesis by simp
  qed
qed

lemma links_loop_map_filter:
  "links_loop u hs acc = acc @ List.map_filter (link_of_href u) hs"
  by (induction hs arbitrary: acc) (auto simp: List.map_filter_simps split: option.splits)

lemma set_parse_image_links:
  "set (parse_image_links u html) = {r. \<exists>h \<in> set (findall_href html). link_of_href u h = Some r}"
  by (force simp: parse_image_links_def links_loop_map_filter List.map_filter_def image_iff)

lemma zero_of_Some: "zero_of zs c = Some z \<Longrightarrow> z \<le> c \<and> c \<le> z + 9"
  by (induction zs) (auto split: if_splits)

lemma digit_val_less: "is_digit c \<Longrightarrow> digit_val c < 10"
proof -
  assume "is_digit c"
  then obtain z where z: "zero_of DECIMAL_ZEROS c = Some z"
    by (auto simp: is_digit_def)
  from zero_of_Some [OF z] have "nat (c - z) < 10" by auto
  with z show ?thesis by (simp add: digit_val_def)
qed

lemma ascii_digit_is_digit: "is_ascii_digit c \<Longrightarrow> is_digit c"
  by (simp add: is_ascii_digit_def is_digit_def DECIMAL_ZEROS_def)

lemma ascii_digit_val: "is_ascii_digit c \<Longrightarrow> digit_val c = nat (c - 48)"
  by (simp add: is_ascii_digit_def digit_val_def DECIMAL_ZEROS_def)

lemma digit_char_val: "is_ascii_digit c \<Longrightarrow> digit_char (digit_val c) = c"
  by (simp add: ascii_digit_val digit_char_def is_ascii_digit_def)

lemma digit_char_ascii: "n < 10 \<Longrightarrow> is_ascii_digit (digit_char n)"
  by (simp add: digit_char_def is_ascii_digit_def)

lemma digit_val_char: "n < 10 \<Longrightarrow> digit_val (digit_char n) = n"
  by (simp add: ascii_digit_val [OF digit_char_ascii]) (simp add: digit_char_def)

lemma fmt_02d_small: "n < 100 \<Longrightarrow> fmt_02d n = [digit_char (n div 10), digit_char (n mod 10)]"
proof -
  assume n: "n < 100"
  show ?thesis
  proof (cases "n < 10")
    case True
    then show ?thesis by (simp add: fmt_02d_def str_nat.simps [of n])
  next
    case False
    with n have "n div 10 < 10" by simp
    with False show ?thesis
      by (simp add: fmt_02d_def str_nat.simps [of n] str_nat.simps [of "n div 10"])
  qed
qed

text \<open>
  The volumes of the configuration are written with the digits \<open>0\<close>..\<open>9\<close>: two decimal
  digits of another script are never one of them.
\<close>

lemma target_volumes_iff:
  "[d1, d2] \<in> TARGET_VOLUMES \<longleftrightarrow>
     is_ascii_digit d1 \<and> is_ascii_digit d2
     \<and> FIRST_VOL \<le> 10 * digit_val d1 + digit_val d2 \<and> 10 * digit_val d1 + digit_val d2 \<le> LAST_VOL"
proof
  let ?n = "10 * digit_val d1 + digit_val d2"
  assume "[d1, d2] \<in> TARGET_VOLUMES"
  then obtain m where m: "FIRST_VOL \<le> m" "m \<le> LAST_VOL" "fmt_02d m = [d1, d2]"
    by (auto simp: TARGET_VOLUMES_def)
  then have m100: "m < 100" by (simp add: LAST_VOL_def)
  with m(3) have d: "digit_char (m div 10) = d1" "digit_char (m mod 10) = d2"
    by (simp_all add: fmt_02d_small)
  from m100 have lt: "m div 10 < 10" "m mod 10 < 10" by simp_all
  from d lt have a: "is_ascii_digit d1" "is_ascii_digit d2"
    using digit_char_ascii [of "m div 10"] digit_char_ascii [of "m mod 10"] by auto
  from d lt have "digit_val d1 = m div 10" "digit_val d2 = m mod 10"
    using digit_val_char [of "m div 10"] digit_val_char [of "m mod 10"] by auto
  then have "?n = m" by simp
  with m a show "is_ascii_digit d1 \<and> is_ascii_digit d2 \<and> FIRST_VOL \<le> ?n \<and> ?n \<le> LAST_VOL"
    by simp
next
  let ?n = "10 * digit_val d1 + digit_val d2"
  assume r: "is_ascii_digit d1 \<and> is_ascii_digit d2 \<and> FIRST_VOL \<le> ?n \<and> ?n \<le> LAST_VOL"
  then have v: "digit_val d1 < 10" "digit_val d2 < 10"
    by (simp_all add: digit_val_less ascii_digit_is_digit)
  then have n: "?n < 100" by simp
  have f: "fmt_02d ?n = [d1, d2]"
    using v r by (simp add: fmt_02d_small [OF n] digit_char_val)
  from r have "?n \<in> set [FIRST_VOL ..< LAST_VOL + 1]" by auto
  then have "fmt_02d ?n \<in> TARGET_VOLUMES"
    unfolding TARGET_VOLUMES_def by (metis image_eqI set_map)
  with f show "[d1, d2] \<in> TARGET_VOLUMES" by simp
qed

lemma match_vol_at_iff:
  "match_vol_at s = Some v \<longleftrightarrow>
     (\<exists>d1 d2 post. v = [d1, d2] \<and> s = VOL_MARKER @ [d1, d2] @ post \<and> is_digit d1 \<and> is_digit d2)"
proof
  assume "match_vol_at s = Some v"
  then obtain t where t: "s = VOL_MARKER @ t" "length t \<ge> 2" "is_digit (t ! 0)" "is_digit (t ! 1)"
    and v: "v = take 2 t"
    by (auto simp: match_vol_at_def startswith_iff Let_def split: if_splits)
  from t(2) obtain d1 d2 post where "t = d1 # d2 # post"
    by (cases t; cases "tl t") auto
  with t v show "\<exists>d1 d2 post. v = [d1, d2] \<and> s = VOL_MARKER @ [d1, d2] @ post \<and> is_digit d1 \<and> is_digit d2"
    by auto
next
  assume "\<exists>d1 d2 post. v = [d1, d2] \<and> s = VOL_MARKER @ [d1, d2] @ post \<and> is_digit d1 \<and> is_digit d2"
  then show "match_vol_at s = Some v"
    by (auto simp: match_vol_at_def startswith_iff Let_def nth_append)
qed

lemma match_vol_at_None:
  "match_vol_at s = None \<longleftrightarrow>
     \<not> (\<exists>d1 d2 post. s = VOL_MARKER @ [d1, d2] @ post \<and> is_digit d1 \<and> is_digit d2)"
proof (cases "match_vol_at s")
  case None
  then show ?thesis using match_vol_at_iff [of s] by force
next
  case (Some v)
  then show ?thesis using match_vol_at_iff [of s v] by auto
qed

text \<open>The leftmost occurrence of the volume marker followed by two digits.\<close>

lemma search_vol_iff:
  "search_vol s = Some v \<longleftrightarrow>
     (\<exists>pre d1 d2 post. v = [d1, d2] \<and> s = pre @ VOL_MARKER @ [d1, d2] @ post
        \<and> is_digit d1 \<and> is_digit d2
        \<and> (\<forall>pre' e1 e2 post'. s = pre' @ VOL_MARKER @ [e1, e2] @ post' \<and> is_digit e1 \<and> is_digit e2
              \<longrightarrow> length pre \<le> length pre'))"
  (is "?L \<longleftrightarrow> ?R")
proof
  assume ?L
  then obtain pre t where pt: "s = pre @ t" "match_vol_at t = Some v"
    and mn: "\<forall>pre' t'. s = pre' @ t' \<and> length pre' < length pre \<longrightarrow> match_vol_at t' = None"
    unfolding search_vol_def re_search_Some by blast
  from pt(2) obtain d1 d2 post where d: "v = [d1, d2]" "t = VOL_MARKER @ [d1, d2] @ post"
    "is_digit d1" "is_digit d2"
    unfolding match_vol_at_iff by blast
  have "length pre \<le> length pre'"
    if "s = pre' @ VOL_MARKER @ [e1, e2] @ post' \<and> is_digit e1 \<and> is_digit e2" for pre' e1 e2 post'
  proof (rule ccontr)
    assume "\<not> length pre \<le> length pre'"
    with that have "s = pre' @ (VOL_MARKER @ [e1, e2] @ post') \<and> length pre' < length pre" by simp
    with mn have "match_vol_at (VOL_MARKER @ [e1, e2] @ post') = None" by blast
    with that show False unfolding match_vol_at_None by blast
  qed
  with pt(1) d show ?R by blast
next
  assume ?R
  then obtain pre d1 d2 post where d: "v = [d1, d2]" "s = pre @ VOL_MARKER @ [d1, d2] @ post"
      "is_digit d1" "is_digit d2"
    and mn: "\<forall>pre' e1 e2 post'. s = pre' @ VOL_MARKER @ [e1, e2] @ post' \<and> is_digit e1 \<and> is_digit e2
              \<longrightarrow> length pre \<le> length pre'"
    by blast
  have m: "match_vol_at (VOL_MARKER @ [d1, d2] @ post) = Some v"
    unfolding match_vol_at_iff using d by blast
  have "match_vol_at t' = None" if "s = pre' @ t' \<and> length pre' < length pre" for pre' t'
  proof (rule ccontr)
    assume "match_vol_at t' \<noteq> None"
    then obtain e1 e2 post' where "t' = VOL_MARKER @ [e1, e2] @ post'" "is_digit e1" "is_digit e2"
      unfolding match_vol_at_None by blast
    with that mn have "length pre \<le> length pre'" by blast
    with that show False by simp
  qed
  with d(2) m show ?L unfolding search_vol_def re_search_Some by blast
qed

lemma find_from_None:
  "find_from s p i = None \<Longrightarrow> s \<noteq> pre @ p @ t"
proof (induction s arbitrary: i pre)
  case Nil
  then show ?case by (auto split: if_splits)
next
  case (Cons c cs)
  from Cons.prems have ns: "\<not> startswith (c # cs) p" and r: "find_from cs p (Suc i) = None"
    by (auto split: if_splits)
  show ?case
  proof (cases pre)
    case Nil
    with ns show ?thesis by (auto simp: startswith_iff)
  next
    case (Cons a q)
    with Cons.IH [OF r, of q] show ?thesis by auto
  qed
qed

lemma find_from_Some:
  "find_from s p i = Some j \<Longrightarrow>
     \<exists>pre t. s = pre @ p @ t \<and> j = i + length pre
       \<and> (\<forall>pre' t'. s = pre' @ p @ t' \<longrightarrow> length pre \<le> length pre')"
proof (induction s arbitrary: i)
  case Nil
  then show ?case by (auto split: if_splits)
next
  case (Cons c cs)
  show ?case
  proof (cases "startswith (c # cs) p")
    case True
    then obtain t where t: "c # cs = p @ t" by (auto simp: startswith_iff)
    from True Cons.prems have j: "j = i" by simp
    show ?thesis by (rule exI [of _ "[]"], rule exI [of _ t]) (simp add: t j)
  next
    case False
    with Cons.prems have "find_from cs p (Suc i) = Some j" by simp
    from Cons.IH [OF this] obtain q t where q: "cs = q @ p @ t" "j = Suc i + length q"
      and mn: "\<forall>pre' t'. cs = pre' @ p @ t' \<longrightarrow> length q \<le> length pre'"
      by blast
    have "length (c # q) \<le> length pre'" if "c # cs = pre' @ p @ t'" for pre' t'
    proof (cases pre')
      case Nil
      with that False show ?thesis by (auto simp: startswith_iff)
    next
      case (Cons a q')
      with that mn show ?thesis by auto
    qed
    moreover have "c # cs = (c # q) @ p @ t" "j = i + length (c # q)"
      using q by simp_all
    ultimately show ?thesis by blast
  qed
qed

lemma last_segment_no_slash: "SLASH \<notin> set (last_segment s)"
  by (auto simp: last_segment_def dest: set_takeWhileD)

lemma last_segment_suffix:
  "s = last_segment s \<or> (\<exists>pre. s = pre @ S ''/'' @ last_segment s)"
proof -
  let ?P = "\<lambda>c. c \<noteq> SLASH"
  have "rev (dropWhile ?P (rev s)) @ rev (takeWhile ?P (rev s))
      = rev (takeWhile ?P (rev s) @ dropWhile ?P (rev s))"
    by (simp only: rev_append)
  also have "\<dots> = rev (rev s)" by (simp only: takeWhile_dropWhile_id)
  finally have s: "s = rev (dropWhile ?P (rev s)) @ last_segment s"
    by (simp add: last_segment_def)
  show ?thesis
  proof (cases "dropWhile ?P (rev s)")
    case Nil
    with s show ?thesis by simp
  next
    case (Cons a q)
    then have "a = SLASH"
      using hd_dropWhile [of ?P "rev s"] by simp
    with Cons s have "s = rev q @ S ''/'' @ last_segment s" by (simp add: S_def)
    then show ?thesis by blast
  qed
qed

lemma inner_path_of_marker:
  assumes "decoded = pre @ ROOT_MARKER @ post"
  shows "\<exists>pre0 post0. decoded = pre0 @ inner_path_of decoded
     \<and> inner_path_of decoded = ROOT_MARKER @ post0
     \<and> (\<forall>pre' post'. decoded = pre' @ ROOT_MARKER @ post' \<longrightarrow> length pre0 \<le> length pre')"
proof (cases "find_str decoded ROOT_MARKER")
  case None
  then have "find_from decoded ROOT_MARKER 0 = None" by (simp add: find_str_def)
  from find_from_None [OF this, of pre post] assms show ?thesis by simp
next
  case (Some i)
  from find_from_Some [OF Some [unfolded find_str_def]]
  obtain pre0 t where p: "decoded = pre0 @ ROOT_MARKER @ t" "i = length pre0"
    and mn: "\<forall>pre' t'. decoded = pre' @ ROOT_MARKER @ t' \<longrightarrow> length pre0 \<le> length pre'"
    by auto
  from p(2) have "inner_path_of decoded = drop (length pre0) decoded"
    by (simp add: inner_path_of_def Some)
  with p(1) have "inner_path_of decoded = ROOT_MARKER @ t" by simp
  with p(1) mn show ?thesis by (intro exI [of _ pre0] exI [of _ t]) simp
qed

lemma inner_path_of_no_marker:
  assumes "\<not> (\<exists>pre post. decoded = pre @ ROOT_MARKER @ post)"
  shows "inner_path_of decoded = last_segment decoded"
proof (cases "find_str decoded ROOT_MARKER")
  case None
  then show ?thesis by (simp add: inner_path_of_def)
next
  case (Some i)
  from find_from_Some [OF Some [unfolded find_str_def]]
  obtain pre0 t where "decoded = pre0 @ ROOT_MARKER @ t" by blast
  with assms show ?thesis by blast
qed

lemma full_url_of_iff:
  "full_url_of href \<noteq> None \<longleftrightarrow>
     (\<exists>rest. href = S ''http://'' @ rest \<or> href = S ''https://'' @ rest \<or> href = S ''//'' @ rest)"
  unfolding full_url_of_def startswith_iff by auto

lemma link_of_href_Some_iff:
  "(\<exists>r. link_of_href unquote href = Some r) \<longleftrightarrow>
     full_url_of href \<noteq> None \<and> (\<exists>v. search_vol (unquote href) = Some v \<and> v \<in> TARGET_VOLUMES)"
  by (auto simp: link_of_href_def Let_def split: option.splits)

text \<open>
  Claim C1, as amended. For every href found in the page (an attribute value without a
  quote that ends in \<open>.jpg\<close>, \<open>.jpeg\<close> or \<open>.png\<close>, in either case), the Link Extractor
  keeps a record for it if and only if the href starts with \<open>http://\<close>, \<open>https://\<close> or
  \<open>//\<close> and, in its percent-decoded form, the leftmost occurrence of the marker
  \<open>Digital Colored Comics v\<close> followed by two decimal digits, of whatever script, has
  two of the digits \<open>0\<close>..\<open>9\<close> there, and their two-digit number lies in the range
  \<open>FIRST_VOL..LAST_VOL\<close>. Only that leftmost occurrence counts.
\<close>

theorem kept_iff_first_volume_marker_in_range:
  assumes "href \<in> set (findall_href html)"
  shows "(\<exists>r \<in> set (parse_image_links unquote html). link_of_href unquote href = Some r)
     \<longleftrightarrow>
       (\<exists>rest. href = S ''http://'' @ rest \<or> href = S ''https://'' @ rest \<or> href = S ''//'' @ rest)
     \<and> (\<exists>pre d1 d2 post.
           unquote href = pre @ VOL_MARKER @ [d1, d2] @ post \<and> is_digit d1 \<and> is_digit d2
         \<and> (\<forall>pre' e1 e2 post'.
               unquote href = pre' @ VOL_MARKER @ [e1, e2] @ post' \<and> is_digit e1 \<and> is_digit e2
               \<longrightarrow> length pre \<le> length pre')
         \<and> is_ascii_digit d1 \<and> is_ascii_digit d2
         \<and> FIRST_VOL \<le> 10 * digit_val d1 + digit_val d2
         \<and> 10 * digit_val d1 + digit_val d2 \<le> LAST_VOL)"
  (is "?L \<longleftrightarrow> ?S \<and> ?V")
proof -
  have "?L \<longleftrightarrow> (\<exists>r. link_of_href unquote href = Some r)"
    using assms by (auto simp: set_parse_image_links)
  also have "\<dots> \<longleftrightarrow> ?S \<and> (\<exists>v. search_vol (unquote href) = Some v \<and> v \<in> TARGET_VOLUMES)"
    unfolding link_of_href_Some_iff full_url_of_iff ..
  also have "(\<exists>v. search_vol (unquote href) = Some v \<and> v \<in> TARGET_VOLUMES) \<longleftrightarrow> ?V"
  proof
    assume "\<exists>v. search_vol (unquote href) = Some v \<and> v \<in> TARGET_VOLUMES"
    then obtain v where v: "search_vol (unquote href) = Some v" "v \<in> TARGET_VOLUMES" by blast
    from v(1) obtain pre d1 d2 post where d: "v = [d1, d2]"
      "unquote href = pre @ VOL_MARKER @ [d1, d2] @ post" "is_digit d1" "is_digit d2"
      "\<forall>pre' e1 e2 post'.
         unquote href = pre' @ VOL_MARKER @ [e1, e2] @ post' \<and> is_digit e1 \<and> is_digit e2
         \<longrightarrow> length pre \<le> length pre'"
      unfolding search_vol_iff by blast
    from v(2) d(1) have "is_ascii_digit d1 \<and> is_ascii_digit d2
         \<and> FIRST_VOL \<le> 10 * digit_val d1 + digit_val d2
         \<and> 10 * digit_val d1 + digit_val d2 \<le> LAST_VOL"
      by (simp add: target_volumes_iff)
    with d(2-5) show ?V by blast
  next
    assume ?V
    then obtain pre d1 d2 post where d:
      "unquote href = pre @ VOL_MARKER @ [d1, d2] @ post" "is_digit d1" "is_digit d2"
      "\<forall>pre' e1 e2 post'.
         unquote href = pre' @ VOL_MARKER @ [e1, e2] @ post' \<and> is_digit e1 \<and> is_digit e2
         \<longrightarrow> length pre \<le> length pre'"
      and r: "is_ascii_digit d1 \<and> is_ascii_digit d2
         \<and> FIRST_VOL \<le> 10 * digit_val d1 + digit_val d2
         \<and> 10 * digit_val d1 + digit_val d2 \<le> LAST_VOL"
      by blast
    from d have "search_vol (unquote href) = Some [d1, d2]"
      unfolding search_vol_iff by blast
    moreover from r have "[d1, d2] \<in> TARGET_VOLUMES"
      by (simp add: target_volumes_iff)
    ultimately show "\<exists>v. search_vol (unquote href) = Some v \<and> v \<in> TARGET_VOLUMES" by blast
  qed
  finally show ?thesis by blast
qed

text \<open>
  The claim as first stated asks only that some occurrence of the marker carries a
  number in range. The page below has one href whose decoded form carries \<open>v99\<close> first
  and \<open>v05\<close> after it: the href has the \<open>http\<close> scheme and contains the marker followed
  by \<open>05\<close>, which is in range, and no record is kept.
\<close>

theorem later_marker_in_range_not_kept:
  "two_marker_href \<in> set (findall_href two_marker_html)
   \<and> two_marker_href = S ''http://'' @ S ''h/Digital Colored Comics v99/Digital Colored Comics v05/1.jpg''
   \<and> unquote_plain two_marker_href
       = S ''http://h/Digital Colored Comics v99/'' @ VOL_MARKER @ S ''05'' @ S ''/1.jpg''
   \<and> is_ascii_digit (S ''05'' ! 0) \<and> is_ascii_digit (S ''05'' ! 1)
   \<and> int_of_digits (S ''05'') = 5 \<and> FIRST_VOL \<le> 5 \<and> 5 \<le> LAST_VOL
   \<and> parse_image_links unquote_plain two_marker_html = []"
  by code_simp

theorem kept_iff_first_volume_marker_in_range_witness:
  "kept_href \<in> set (findall_href kept_html)
   \<and> (\<exists>r \<in> set (parse_image_links unquote_plain kept_html).
         link_of_href unquote_plain kept_href = Some r)
   \<and> (\<exists>pre d1 d2 post.
           unquote_plain kept_href = pre @ VOL_MARKER @ [d1, d2] @ post \<and> is_digit d1 \<and> is_digit d2
         \<and> (\<forall>pre' e1 e2 post'.
               unquote_plain kept_href = pre' @ VOL_MARKER @ [e1, e2] @ post' \<and> is_digit e1 \<and> is_digit e2
               \<longrightarrow> length pre \<le> length pre')
         \<and> is_ascii_digit d1 \<and> is_ascii_digit d2
         \<and> FIRST_VOL \<le> 10 * digit_val d1 + digit_val d2
         \<and> 10 * digit_val d1 + digit_val d2 \<le> LAST_VOL)"
proof -
  have h: "kept_href \<in> set (findall_href kept_html)"
    by code_simp
  have l: "\<exists>r \<in> set (parse_image_links unquote_plain kept_html).
         link_of_href unquote_plain kept_href = Some r"
    by code_simp
  from kept_iff_first_volume_marker_in_range [OF h, of unquote_plain] l h
  show ?thesis by blast
qed

text \<open>
  Decimal digits of another script count as digits of the marker and are never a
  volume of the configuration. In the href below the first marker carries the
  Arabic-Indic digits zero and five, percent-encoded, and a second marker carries
  \<open>05\<close>: the search stops at the first marker and the href is dropped.
\<close>

lemma wide_digits_first_not_kept:
  "wide_digit_href \<in> set (findall_href wide_digit_html)
   \<and> search_vol (wide_digit_unquote wide_digit_href) = Some [1632, 1637]
   \<and> is_digit 1632 \<and> is_digit 1637 \<and> digit_val 1637 = 5
   \<and> \<not> is_ascii_digit 1632
   \<and> parse_image_links wide_digit_unquote wide_digit_html = []"
  by code_simp

lemma link_of_href_inner_path:
  "link_of_href unquote href = Some r \<Longrightarrow> inner_path r = inner_path_of (unquote href)"
  by (auto simp: link_of_href_def Let_def split: option.splits if_splits)

text \<open>
  Claim C8. For a kept href, the record's \<open>inner_path\<close> is the part of the decoded href
  from the first occurrence of the root marker \<open>Chainsaw Man (Digitally Colored)/\<close> on;
  when the marker does not occur it is the last segment of the decoded href, the text
  after its last slash. The sample href of the specification, with volume \<open>05\<close>, gives
  one record with volume \<open>05\<close>, a URL that starts with \<open>https://\<close>, and an inner path
  that starts at the root marker.
\<close>

theorem inner_path_from_root_marker_or_filename:
  assumes "href \<in> set (findall_href html)" and "link_of_href unquote href = Some r"
  shows "r \<in> set (parse_image_links unquote html)
     \<and> ((\<exists>pre post. unquote href = pre @ ROOT_MARKER @ post) \<longrightarrow>
          (\<exists>pre post. unquote href = pre @ inner_path r \<and> inner_path r = ROOT_MARKER @ post
             \<and> (\<forall>pre' post'. unquote href = pre' @ ROOT_MARKER @ post' \<longrightarrow> length pre \<le> length pre')))
     \<and> (\<not> (\<exists>pre post. unquote href = pre @ ROOT_MARKER @ post) \<longrightarrow>
          SLASH \<notin> set (inner_path r)
          \<and> (unquote href = inner_path r \<or> (\<exists>pre. unquote href = pre @ S ''/'' @ inner_path r)))
     \<and> parse_image_links unquote_plain sample_html =
          [\<lparr>vol = S ''05'',
            inner_path = S ''Chainsaw Man (Digitally Colored)/Chapter 2 - Foo/03.jpg'',
            url = S ''https://cdn/x/Digital Colored Comics v05/Chainsaw Man (Digitally Colored)/Chapter 2 - Foo/03.jpg''\<rparr>]"
proof (intro conjI impI)
  show "r \<in> set (parse_image_links unquote html)"
    using assms by (auto simp: set_parse_image_links)
next
  assume "\<exists>pre post. unquote href = pre @ ROOT_MARKER @ post"
  then obtain pre post where "unquote href = pre @ ROOT_MARKER @ post" by blast
  from inner_path_of_marker [OF this]
  show "\<exists>pre post. unquote href = pre @ inner_path r \<and> inner_path r = ROOT_MARKER @ post
             \<and> (\<forall>pre' post'. unquote href = pre' @ ROOT_MARKER @ post' \<longrightarrow> length pre \<le> length pre')"
    unfolding link_of_href_inner_path [OF assms(2)] .
next
  assume n: "\<not> (\<exists>pre post. unquote href = pre @ ROOT_MARKER @ post)"
  then have i: "inner_path r = last_segment (unquote href)"
    unfolding link_of_href_inner_path [OF assms(2)] by (rule inner_path_of_no_marker)
  show "SLASH \<notin> set (inner_path r)"
    unfolding i by (rule last_segment_no_slash)
  show "unquote href = inner_path r \<or> (\<exists>pre. unquote href = pre @ S ''/'' @ inner_path r)"
    unfolding i by (rule last_segment_suffix)
next
  show "parse_image_links unquote_plain sample_html =
          [\<lparr>vol = S ''05'',
            inner_path = S ''Chainsaw Man (Digitally Colored)/Chapter 2 - Foo/03.jpg'',
            url = S ''https://cdn/x/Digital Colored Comics v05/Chainsaw Man (Digitally Colored)/Chapter 2 - Foo/03.jpg''\<rparr>]"
    by code_simp
qed

theorem inner_path_from_root_marker_or_filename_witness:
  "bare_href \<in> set (findall_href bare_html)
   \<and> link_of_href unquote_plain bare_href
       = Some \<lparr>vol = S ''03'', inner_path = S ''09.jpg'', url = S ''http://h/Digital Colored Comics v03/x/09.jpg''\<rparr>
   \<and> \<lparr>vol = S ''03'', inner_path = S ''09.jpg'', url = S ''http://h/Digital Colored Comics v03/x/09.jpg''\<rparr>
       \<in> set (parse_image_links unquote_plain bare_html)
   \<and> SLASH \<notin> set (S ''09.jpg'')
   \<and> (unquote_plain bare_href = S ''09.jpg'' \<or> (\<exists>pre. unquote_plain bare_href = pre @ S ''/'' @ S ''09.jpg''))"
proof -
  let ?r = "\<lparr>vol = S ''03'', inner_path = S ''09.jpg'', url = S ''http://h/Digital Colored Comics v03/x/09.jpg''\<rparr>"
  have h1: "bare_href \<in> set (findall_href bare_html)" by code_simp
  have h2: "link_of_href unquote_plain bare_href = Some ?r" by code_simp
  have n: "\<not> (\<exists>pre post. unquote_plain bare_href = pre @ ROOT_MARKER @ post)"
  proof -
    have "find_from (unquote_plain bare_href) ROOT_MARKER 0 = None" by code_simp
    from find_from_None [OF this] show ?thesis by blast
  qed
  from inner_path_from_root_marker_or_filename [OF h1 h2] n h1 h2
  show ?thesis by simp
qed

lemma inner_path_of_relative: "\<not> startswith (inner_path_of decoded) (S ''/'')"
proof (cases "find_str decoded ROOT_MARKER")
  case None
  then have "inner_path_of decoded = last_segment decoded"
    by (simp add: inner_path_of_def)
  moreover have "SLASH \<notin> set (last_segment decoded)"
    by (rule last_segment_no_slash)
  ultimately show ?thesis
    by (auto simp: startswith_iff S_def)
next
  case (Some i)
  from find_from_Some [OF Some [unfolded find_str_def]]
  obtain pre t where p: "decoded = pre @ ROOT_MARKER @ t" "i = length pre" by auto
  from p(2) have "inner_path_of decoded = drop (length pre) decoded"
    by (simp add: inner_path_of_def Some)
  with p(1) have "inner_path_of decoded = ROOT_MARKER @ t" by simp
  then show ?thesis
    by (simp add: startswith_def ROOT_MARKER_def S_def)
qed

lemma path_join_output_root:
  "\<not> startswith b (S ''/'') \<Longrightarrow> path_join OUTPUT_ROOT b = OUTPUT_ROOT @ S ''/'' @ b"
  by (simp add: path_join_def OUTPUT_ROOT_def endswith_def S_def)

lemma parse_image_links_inner_path:
  assumes "r \<in> set (parse_image_links unquote html)"
  shows "\<exists>href \<in> set (findall_href html). inner_path r = inner_path_of (unquote href)"
  using assms by (auto simp: set_parse_image_links dest: link_of_href_inner_path)

text \<open>
  Claim C9, as amended. Two records of the Link Extractor's output have the same local
  target path exactly when they have the same \<open>inner_path\<close>, and every target is the
  output root, a slash and the inner path. The extractor does not make inner paths
  unique.
\<close>

theorem same_target_iff_same_inner_path:
  assumes "r1 \<in> set (parse_image_links unquote html)"
      and "r2 \<in> set (parse_image_links unquote html)"
  shows "(local_path_of r1 = local_path_of r2 \<longleftrightarrow> inner_path r1 = inner_path r2)
     \<and> local_path_of r1 = OUTPUT_ROOT @ S ''/'' @ inner_path r1"
proof -
  from assms have "\<not> startswith (inner_path r1) (S ''/'')" "\<not> startswith (inner_path r2) (S ''/'')"
    using inner_path_of_relative by (auto dest!: parse_image_links_inner_path)
  then have "local_path_of r1 = OUTPUT_ROOT @ S ''/'' @ inner_path r1"
    "local_path_of r2 = OUTPUT_ROOT @ S ''/'' @ inner_path r2"
    by (simp_all add: local_path_of_def path_join_output_root)
  then show ?thesis by simp
qed

text \<open>
  The claim as first stated fails on a page with two hrefs that lack the root marker and
  end in the same file name: the two records differ and have one target path.
\<close>

theorem distinct_records_share_a_target:
  "parse_image_links unquote_plain same_name_html =
     [\<lparr>vol = S ''01'', inner_path = S ''1.jpg'', url = S ''http://h/Digital Colored Comics v01/x/1.jpg''\<rparr>,
      \<lparr>vol = S ''01'', inner_path = S ''1.jpg'', url = S ''http://h/Digital Colored Comics v01/y/1.jpg''\<rparr>]
   \<and> \<lparr>vol = S ''01'', inner_path = S ''1.jpg'', url = S ''http://h/Digital Colored Comics v01/x/1.jpg''\<rparr>
       \<noteq> \<lparr>vol = S ''01'', inner_path = S ''1.jpg'', url = S ''http://h/Digital Colored Comics v01/y/1.jpg''\<rparr>
   \<and> local_path_of \<lparr>vol = S ''01'', inner_path = S ''1.jpg'', url = S ''http://h/Digital Colored Comics v01/x/1.jpg''\<rparr>
       = S ''chainsaw_man_colored/1.jpg''
   \<and> local_path_of \<lparr>vol = S ''01'', inner_path = S ''1.jpg'', url = S ''http://h/Digital Colored Comics v01/y/1.jpg''\<rparr>
       = S ''chainsaw_man_colored/1.jpg''"
  by code_simp

theorem same_target_iff_same_inner_path_witness:
  "\<lparr>vol = S ''01'', inner_path = S ''1.jpg'', url = S ''http://h/Digital Colored Comics v01/x/1.jpg''\<rparr>
     \<in> set (parse_image_links unquote_plain same_name_html)
   \<and> \<lparr>vol = S ''01'', inner_path = S ''1.jpg'', url = S ''http://h/Digital Colored Comics v01/y/1.jpg''\<rparr>
     \<in> set (parse_image_links unquote_plain same_name_html)
   \<and> local_path_of \<lparr>vol = S ''01'', inner_path = S ''1.jpg'', url = S ''http://h/Digital Colored Comics v01/x/1.jpg''\<rparr>
       = local_path_of \<lparr>vol = S ''01'', inner_path = S ''1.jpg'', url = S ''http://h/Digital Colored Comics v01/y/1.jpg''\<rparr>
   \<and> local_path_of \<lparr>vol = S ''01'', inner_path = S ''1.jpg'', url = S ''http://h/Digital Colored Comics v01/x/1.jpg''\<rparr>
       = OUTPUT_ROOT @ S ''/'' @ S ''1.jpg''"
proof -
  let ?ra = "\<lparr>vol = S ''01'', inner_path = S ''1.jpg'', url = S ''http://h/Digital Colored Comics v01/x/1.jpg''\<rparr>"
  let ?rb = "\<lparr>vol = S ''01'', inner_path = S ''1.jpg'', url = S ''http://h/Digital Colored Comics v01/y/1.jpg''\<rparr>"
  have a: "?ra \<in> set (parse_image_links unquote_plain same_name_html)" by code_simp
  have b: "?rb \<in> set (parse_image_links unquote_plain same_name_html)" by code_simp
  note t = same_target_iff_same_inner_path [OF a b]
  from t [THEN conjunct1] have e: "local_path_of ?ra = local_path_of ?rb" by simp
  from t [THEN conjunct2] have d: "local_path_of ?ra = OUTPUT_ROOT @ S ''/'' @ S ''1.jpg''" by simp
  from a b e d show ?thesis by (intro conjI)
qed

section \<open>Properties of the Volume Collector\<close>

lemma sort_key_for_relpath_eq:
  "sort_key_for_relpath p =
     (case chapter_of p of Some c \<Rightarrow> c | None \<Rightarrow> 9999,
      case page_of p of Some n \<Rightarrow> n | None \<Rightarrow> 9999,
      p)"
  by (simp add: sort_key_for_relpath_def chapter_of_def page_of_def Let_def split: option.splits)

lemma collect_images_for_volume_sorted:
  "sorted (map (\<lambda>t. sort_key_for_relpath (fst t)) (collect_images_for_volume walk v))"
  by (simp add: collect_images_for_volume_def Let_def)

lemma key_le_imp_pair_le:
  fixes a b :: "nat \<times> nat \<times> str"
  shows "a \<le> b \<Longrightarrow> (fst a, fst (snd a)) \<le> (fst b, fst (snd b))"
  by (cases a; cases b) (auto simp: less_eq_prod_def less_prod_def)

lemma key_no_chapter_after:
  assumes "sorted (map (\<lambda>t. sort_key_for_relpath (fst t)) out)"
      and "i < length out" "j < length out"
      and "chapter_of (fst (out ! i)) = None"
      and "chapter_of (fst (out ! j)) = Some c" "c < 9999"
  shows "j < i"
proof (rule ccontr)
  assume "\<not> j < i"
  then have "i \<le> j" by simp
  with assms(1,3) have "sort_key_for_relpath (fst (out ! i)) \<le> sort_key_for_relpath (fst (out ! j))"
    by (simp add: sorted_iff_nth_mono)
  with assms(4-6) show False
    by (simp add: sort_key_for_relpath_eq less_eq_prod_def)
qed

lemma key_no_page_after:
  assumes "sorted (map (\<lambda>t. sort_key_for_relpath (fst t)) out)"
      and "i < length out" "j < length out"
      and "chapter_of (fst (out ! i)) = chapter_of (fst (out ! j))"
      and "page_of (fst (out ! i)) = None"
      and "page_of (fst (out ! j)) = Some n" "n < 9999"
  shows "j < i"
proof (rule ccontr)
  assume "\<not> j < i"
  then have "i \<le> j" by simp
  with assms(1,3) have "sort_key_for_relpath (fst (out ! i)) \<le> sort_key_for_relpath (fst (out ! j))"
    by (simp add: sorted_iff_nth_mono)
  with assms(4-7) show False
    by (simp add: sort_key_for_relpath_eq less_eq_prod_def)
qed

lemma numbered_entries_sorted:
  assumes "sorted (map (\<lambda>t. sort_key_for_relpath (fst t)) out)"
  shows "sorted (map (\<lambda>t. (the (chapter_of (fst t)), the (page_of (fst t))))
           (filter both_numbers out))"
proof -
  from assms have "sorted (map (\<lambda>t. sort_key_for_relpath (fst t)) (filter both_numbers out))"
    by (rule sorted_filter)
  then have "sorted_wrt (\<lambda>a b. sort_key_for_relpath (fst a) \<le> sort_key_for_relpath (fst b))
               (filter both_numbers out)"
    by (simp add: sorted_map)
  then have "sorted_wrt (\<lambda>a b. (the (chapter_of (fst a)), the (page_of (fst a)))
                              \<le> (the (chapter_of (fst b)), the (page_of (fst b))))
               (filter both_numbers out)"
  proof (rule sorted_wrt_mono_rel [rotated])
    fix a b
    assume a: "a \<in> set (filter both_numbers out)" and b: "b \<in> set (filter both_numbers out)"
      and le: "sort_key_for_relpath (fst a) \<le> sort_key_for_relpath (fst b)"
    from a b obtain ca pa cb pb where n:
      "chapter_of (fst a) = Some ca" "page_of (fst a) = Some pa"
      "chapter_of (fst b) = Some cb" "page_of (fst b) = Some pb"
      by (auto simp: both_numbers_def)
    from key_le_imp_pair_le [OF le] n
    show "(the (chapter_of (fst a)), the (page_of (fst a)))
            \<le> (the (chapter_of (fst b)), the (page_of (fst b)))"
      by (simp add: sort_key_for_relpath_eq)
  qed
  then show ?thesis
    by (simp add: sorted_map)
qed

text \<open>
  Claim C2, as amended. The Volume Collector's output is sorted ascending by the key
  (chapter number, page number, relative path), in which a number that cannot be
  extracted is replaced by 9999. Hence the entries that have both numbers are in
  ascending order of (chapter, page); an entry without a chapter number comes after
  every entry whose chapter number is below 9999; and within one chapter an entry
  without a page number comes after every entry whose page number is below 9999. The
  relative path only breaks ties between equal pairs of numbers.
\<close>

theorem collector_sorted_by_key_with_sentinels:
  "sorted (map (\<lambda>t. sort_key_for_relpath (fst t)) (collect_images_for_volume walk v))
   \<and> (\<forall>t \<in> set (collect_images_for_volume walk v).
         sort_key_for_relpath (fst t) =
           (case chapter_of (fst t) of Some c \<Rightarrow> c | None \<Rightarrow> 9999,
            case page_of (fst t) of Some n \<Rightarrow> n | None \<Rightarrow> 9999,
            fst t))
   \<and> sorted (map (\<lambda>t. (the (chapter_of (fst t)), the (page_of (fst t))))
               (filter both_numbers (collect_images_for_volume walk v)))
   \<and> (\<forall>i j c. i < length (collect_images_for_volume walk v)
         \<and> j < length (collect_images_for_volume walk v)
         \<and> chapter_of (fst (collect_images_for_volume walk v ! i)) = None
         \<and> chapter_of (fst (collect_images_for_volume walk v ! j)) = Some c \<and> c < 9999
         \<longrightarrow> j < i)
   \<and> (\<forall>i j n. i < length (collect_images_for_volume walk v)
         \<and> j < length (collect_images_for_volume walk v)
         \<and> chapter_of (fst (collect_images_for_volume walk v ! i))
             = chapter_of (fst (collect_images_for_volume walk v ! j))
         \<and> page_of (fst (collect_images_for_volume walk v ! i)) = None
         \<and> page_of (fst (collect_images_for_volume walk v ! j)) = Some n \<and> n < 9999
         \<longrightarrow> j < i)"
proof (intro conjI ballI allI impI)
  let ?out = "collect_images_for_volume walk v"
  show s: "sorted (map (\<lambda>t. sort_key_for_relpath (fst t)) ?out)"
    by (rule collect_images_for_volume_sorted)
  show "sort_key_for_relpath (fst t) =
           (case chapter_of (fst t) of Some c \<Rightarrow> c | None \<Rightarrow> 9999,
            case page_of (fst t) of Some n \<Rightarrow> n | None \<Rightarrow> 9999,
            fst t)" for t
    by (rule sort_key_for_relpath_eq)
  show "sorted (map (\<lambda>t. (the (chapter_of (fst t)), the (page_of (fst t))))
               (filter both_numbers ?out))"
    using s by (rule numbered_entries_sorted)
  show "j < i"
    if "i < length ?out \<and> j < length ?out \<and> chapter_of (fst (?out ! i)) = None
         \<and> chapter_of (fst (?out ! j)) = Some c \<and> c < 9999" for i j c
    using that key_no_chapter_after [OF s, of i j c] by simp
  show "j < i"
    if "i < length ?out \<and> j < length ?out
         \<and> chapter_of (fst (?out ! i)) = chapter_of (fst (?out ! j))
         \<and> page_of (fst (?out ! i)) = None
         \<and> page_of (fst (?out ! j)) = Some n \<and> n < 9999" for i j n
    using that key_no_page_after [OF s, of i j n] by simp
qed

text \<open>
  The claim as first stated puts every entry that lacks a number after all entries that
  have both. In the listing below the cover of chapter 1 has no page number and comes
  before page 1 of chapter 2, which has both numbers.
\<close>

theorem entry_without_page_precedes_numbered_entry:
  "collect_images_for_volume cover_walk (S ''01'') =
     [(S ''Digital Colored Comics v01/Chapter 1 - A/02.png'',
       (S ''chainsaw_man_colored/Digital Colored Comics v01/Chapter 1 - A/02.png'')),
      (S ''Digital Colored Comics v01/Chapter 1 - A/cover.jpg'',
       (S ''chainsaw_man_colored/Digital Colored Comics v01/Chapter 1 - A/cover.jpg'')),
      (S ''Digital Colored Comics v01/Chapter 2 - B/01.jpg'',
       (S ''chainsaw_man_colored/Digital Colored Comics v01/Chapter 2 - B/01.jpg''))]
   \<and> page_of (S ''Digital Colored Comics v01/Chapter 1 - A/cover.jpg'') = None
   \<and> chapter_of (S ''Digital Colored Comics v01/Chapter 2 - B/01.jpg'') = Some 2
   \<and> page_of (S ''Digital Colored Comics v01/Chapter 2 - B/01.jpg'') = Some 1"
  by code_simp


theorem collector_sorted_by_key_with_sentinels_witness:
  "(S ''Digital Colored Comics v01/Chapter 1 - A/cover.jpg'',
    (S ''chainsaw_man_colored/Digital Colored Comics v01/Chapter 1 - A/cover.jpg''))
     \<in> set (collect_images_for_volume cover_walk (S ''01''))
   \<and> sort_key_for_relpath (S ''Digital Colored Comics v01/Chapter 1 - A/cover.jpg'')
       = (1, 9999, S ''Digital Colored Comics v01/Chapter 1 - A/cover.jpg'')
   \<and> (1 :: nat) < length (collect_images_for_volume cover_walk (S ''01''))
   \<and> (0 :: nat) < length (collect_images_for_volume cover_walk (S ''01''))
   \<and> chapter_of (fst (collect_images_for_volume cover_walk (S ''01'') ! 1))
       = chapter_of (fst (collect_images_for_volume cover_walk (S ''01'') ! 0))
   \<and> page_of (fst (collect_images_for_volume cover_walk (S ''01'') ! 1)) = None
   \<and> page_of (fst (collect_images_for_volume cover_walk (S ''01'') ! 0)) = Some 2
   \<and> (2 :: nat) < 9999 \<and> (0 :: nat) < 1"
proof -
  let ?out = "collect_images_for_volume cover_walk (S ''01'')"
  note t = collector_sorted_by_key_with_sentinels [of cover_walk "S ''01''"]
  have out: "?out =
     [(S ''Digital Colored Comics v01/Chapter 1 - A/02.png'',
       (S ''chainsaw_man_colored/Digital Colored Comics v01/Chapter 1 - A/02.png'')),
      (S ''Digital Colored Comics v01/Chapter 1 - A/cover.jpg'',
       (S ''chainsaw_man_colored/Digital Colored Comics v01/Chapter 1 - A/cover.jpg'')),
      (S ''Digital Colored Comics v01/Chapter 2 - B/01.jpg'',
       (S ''chainsaw_man_colored/Digital Colored Comics v01/Chapter 2 - B/01.jpg''))]"
    by code_simp
  have c: "chapter_of (S ''Digital Colored Comics v01/Chapter 1 - A/cover.jpg'') = Some 1"
    "page_of (S ''Digital Colored Comics v01/Chapter 1 - A/cover.jpg'') = None"
    "chapter_of (S ''Digital Colored Comics v01/Chapter 1 - A/02.png'') = Some 1"
    "page_of (S ''Digital Colored Comics v01/Chapter 1 - A/02.png'') = Some 2"
    by code_simp+
  have m: "(S ''Digital Colored Comics v01/Chapter 1 - A/cover.jpg'',
    (S ''chainsaw_man_colored/Digital Colored Comics v01/Chapter 1 - A/cover.jpg'')) \<in> set ?out"
    unfolding out by simp
  from t [THEN conjunct2, THEN conjunct1, rule_format, OF m]
  have k: "sort_key_for_relpath (S ''Digital Colored Comics v01/Chapter 1 - A/cover.jpg'')
       = (1, 9999, S ''Digital Colored Comics v01/Chapter 1 - A/cover.jpg'')"
    by (simp add: c)
  have h: "(1 :: nat) < length ?out \<and> (0 :: nat) < length ?out
    \<and> chapter_of (fst (?out ! 1)) = chapter_of (fst (?out ! 0))
    \<and> page_of (fst (?out ! 1)) = None \<and> page_of (fst (?out ! 0)) = Some 2 \<and> (2 :: nat) < 9999"
    unfolding out by (simp add: c)
  from t [THEN conjunct2, THEN conjunct2, THEN conjunct2, THEN conjunct2, rule_format, OF h]
  have z: "(0 :: nat) < 1" .
  from m k h z show ?thesis by (intro conjI) simp_all
qed

section \<open>Properties of the Download Manager\<close>

lemma mkdir_chain_clear:
  "\<forall>p \<in> set ps. files w p = None \<Longrightarrow>
     mkdir_chain ps w = (None, w\<lparr>dirs := dirs w \<union> set ps\<rparr>)"
proof (induction ps arbitrary: w)
  case Nil
  then show ?case by simp
next
  case (Cons p ps)
  then have "mkdir_chain ps (w\<lparr>dirs := insert p (dirs w)\<rparr>)
      = (None, w\<lparr>dirs := insert p (dirs w)\<rparr>\<lparr>dirs := dirs (w\<lparr>dirs := insert p (dirs w)\<rparr>) \<union> set ps\<rparr>)"
    by (intro Cons.IH) simp
  with Cons.prems show ?case by simp
qed

lemma mkdir_chain_result:
  "mkdir_chain ps w = (r, w') \<Longrightarrow>
     files w' = files w \<and> requests w' = requests w \<and> sleeps w' = sleeps w
     \<and> dirs w \<subseteq> dirs w' \<and> dirs w' \<subseteq> dirs w \<union> set ps
     \<and> (\<forall>p \<in> dirs w' - dirs w. files w p = None)
     \<and> (case r of
           None \<Rightarrow> (\<forall>p \<in> set ps. files w p = None) \<and> dirs w' = dirs w \<union> set ps
         | Some e \<Rightarrow> (\<exists>p \<in> set ps. files w p \<noteq> None \<and> e = OSError p))"
proof (induction ps arbitrary: w)
  case Nil
  then show ?case by auto
next
  case (Cons p ps)
  show ?case
  proof (cases "files w p \<noteq> None")
    case True
    with Cons.prems show ?thesis by auto
  next
    case False
    with Cons.prems have "mkdir_chain ps (w\<lparr>dirs := insert p (dirs w)\<rparr>) = (r, w')" by simp
    from Cons.IH [OF this] False show ?thesis
      by (cases r) auto
  qed
qed

lemma makedirs_clear:
  "name \<noteq> [] \<Longrightarrow> \<forall>p \<in> set (dir_chain name). files w p = None \<Longrightarrow>
     makedirs name w = (None, w\<lparr>dirs := dirs w \<union> set (dir_chain name)\<rparr>)"
  by (simp add: makedirs_def mkdir_chain_clear)

lemma makedirs_result:
  "makedirs name w = (r, w') \<Longrightarrow>
     files w' = files w \<and> requests w' = requests w \<and> sleeps w' = sleeps w
     \<and> dirs w \<subseteq> dirs w'
     \<and> (\<forall>p \<in> dirs w' - dirs w. files w p = None)
     \<and> (r = None \<longrightarrow> dirs w' = dirs w \<union> set (dir_chain name))
     \<and> (\<forall>e. r = Some e \<longrightarrow> (\<exists>p. e = OSError p))"
proof (cases "name = []")
  case True
  moreover assume "makedirs name w = (r, w')"
  ultimately show ?thesis by (auto simp: makedirs_def)
next
  case False
  moreover assume "makedirs name w = (r, w')"
  ultimately have "mkdir_chain (dir_chain name) w = (r, w')" by (simp add: makedirs_def)
  from mkdir_chain_result [OF this] show ?thesis
    by (cases r) auto
qed

lemma last_segment_length: "length (last_segment p) \<le> length p"
  unfolding last_segment_def by (metis length_rev length_takeWhile_le)

lemma last_segment_shorter:
  assumes "SLASH \<in> set p"
  shows "length (last_segment p) < length p"
proof -
  from last_segment_suffix [of p] show ?thesis
  proof
    assume "p = last_segment p"
    with assms last_segment_no_slash [of p] show ?thesis by simp
  next
    assume "\<exists>pre. p = pre @ S ''/'' @ last_segment p"
    then obtain pre q where q: "q = last_segment p" and "p = pre @ S ''/'' @ q" by blast
    then have "length p = length pre + 1 + length q" by simp
    with q show ?thesis by simp
  qed
qed

lemma dirname_nonempty:
  assumes "SLASH \<in> set p"
  shows "dirname p \<noteq> []"
proof -
  let ?head = "take (length p - length (last_segment p)) p"
  from last_segment_shorter [OF assms] have h: "?head \<noteq> []"
    by (cases p) auto
  show ?thesis
  proof (cases "list_all (\<lambda>c. c = SLASH) ?head")
    case True
    with h show ?thesis by (simp add: dirname_def Let_def)
  next
    case False
    then obtain c where c: "c \<in> set ?head" "c \<noteq> SLASH"
      by (auto simp: list_all_iff)
    then have "c \<in> set (rev ?head)" by simp
    with c(2) have "dropWhile (\<lambda>c. c = SLASH) (rev ?head) \<noteq> []"
      unfolding dropWhile_eq_Nil_conv by blast
    with False h show ?thesis by (simp add: dirname_def Let_def)
  qed
qed

lemma path_join_output_root_slash: "SLASH \<in> set (path_join OUTPUT_ROOT b)"
  by (cases b) (auto simp: path_join_def OUTPUT_ROOT_def endswith_def startswith_def S_def)

lemma dirname_local_path_nonempty: "dirname (local_path_of item) \<noteq> []"
  unfolding local_path_of_def by (rule dirname_nonempty) (rule path_join_output_root_slash)

lemma download_one_target_exists:
  assumes "exists_path w (local_path_of item)"
      and "\<forall>p \<in> set (dir_chain (dirname (local_path_of item))). files w p = None"
  shows "download_one http_get retries backoff_base item w =
           (Inr (Skipped (local_path_of item)),
            w\<lparr>dirs := dirs w \<union> set (dir_chain (dirname (local_path_of item)))\<rparr>)"
proof -
  let ?lp = "local_path_of item"
  let ?w1 = "w\<lparr>dirs := dirs w \<union> set (dir_chain (dirname ?lp))\<rparr>"
  have m: "makedirs (dirname ?lp) w = (None, ?w1)"
    using dirname_local_path_nonempty assms(2) by (rule makedirs_clear)
  from assms(1) have "exists_path ?w1 ?lp"
    by (auto simp: exists_path_def)
  with m show ?thesis
    by (simp add: download_one_def local_path_of_def [symmetric] Let_def)
qed

lemma download_one_blocked:
  assumes "\<exists>p \<in> set (dir_chain (dirname (local_path_of item))). files w p \<noteq> None"
  shows "\<exists>p w'. download_one http_get retries backoff_base item w = (Inl (OSError p), w')
           \<and> files w' = files w \<and> requests w' = requests w \<and> sleeps w' = sleeps w"
proof -
  let ?lp = "local_path_of item"
  obtain r w1 where m: "makedirs (dirname ?lp) w = (r, w1)" by (cases "makedirs (dirname ?lp) w")
  then have c: "mkdir_chain (dir_chain (dirname ?lp)) w = (r, w1)"
    using dirname_local_path_nonempty [of item] by (simp add: makedirs_def)
  from mkdir_chain_result [OF c] assms obtain e where e: "r = Some e"
    by (cases r) auto
  with makedirs_result [OF m] obtain p where "e = OSError p" by blast
  with m e makedirs_result [OF m] show ?thesis
    by (simp add: download_one_def local_path_of_def [symmetric] Let_def)
qed

text \<open>
  Claim C10. An item whose target file exists is reported skipped. Its directories are
  created first: the world afterwards has the directories of the target's chain and is
  otherwise the world before, so the bytes of the target are the same, no request is
  issued and nothing is slept. The creation comes before the test for the target: with
  a regular file on the chain the item raises, target or not.
\<close>

theorem skipped_item_only_creates_directories:
  "(files w (local_path_of item) = Some bytes
      \<and> (\<forall>p \<in> set (dir_chain (dirname (local_path_of item))). files w p = None)
    \<longrightarrow> (\<exists>w'. download_one http_get retries backoff_base item w
                  = (Inr (Skipped (local_path_of item)), w')
            \<and> dirs w' = dirs w \<union> set (dir_chain (dirname (local_path_of item)))
            \<and> files w' = files w \<and> files w' (local_path_of item) = Some bytes
            \<and> requests w' = requests w \<and> sleeps w' = sleeps w))
   \<and> ((\<exists>p \<in> set (dir_chain (dirname (local_path_of item))). files w p \<noteq> None)
    \<longrightarrow> (\<exists>p w'. download_one http_get retries backoff_base item w = (Inl (OSError p), w')
            \<and> files w' = files w \<and> requests w' = requests w))"
proof (intro conjI impI)
  assume a: "files w (local_path_of item) = Some bytes
      \<and> (\<forall>p \<in> set (dir_chain (dirname (local_path_of item))). files w p = None)"
  then have "exists_path w (local_path_of item)" by (simp add: exists_path_def)
  from download_one_target_exists [OF this, of http_get retries backoff_base] a
  show "\<exists>w'. download_one http_get retries backoff_base item w
                  = (Inr (Skipped (local_path_of item)), w')
            \<and> dirs w' = dirs w \<union> set (dir_chain (dirname (local_path_of item)))
            \<and> files w' = files w \<and> files w' (local_path_of item) = Some bytes
            \<and> requests w' = requests w \<and> sleeps w' = sleeps w"
    by simp
next
  assume "\<exists>p \<in> set (dir_chain (dirname (local_path_of item))). files w p \<noteq> None"
  from download_one_blocked [OF this, of http_get retries backoff_base]
  show "\<exists>p w'. download_one http_get retries backoff_base item w = (Inl (OSError p), w')
            \<and> files w' = files w \<and> requests w' = requests w"
    by blast
qed

theorem skipped_item_only_creates_directories_witness:
  "files skip_world (local_path_of skip_item) = Some ''JFIF''
   \<and> dir_chain (dirname (local_path_of skip_item))
       = [S ''chainsaw_man_colored'', S ''chainsaw_man_colored/Chainsaw Man (Digitally Colored)'']
   \<and> files skip_world (S ''chainsaw_man_colored'') = None
   \<and> files skip_world (S ''chainsaw_man_colored/Chainsaw Man (Digitally Colored)'') = None
   \<and> (\<exists>w'. download_one no_network 3 1 skip_item skip_world
              = (Inr (Skipped (S ''chainsaw_man_colored/Chainsaw Man (Digitally Colored)/01.jpg'')), w')
        \<and> dirs w' = {S ''chainsaw_man_colored'', S ''chainsaw_man_colored/Chainsaw Man (Digitally Colored)''}
        \<and> files w' (local_path_of skip_item) = Some ''JFIF''
        \<and> requests w' = [])"
proof -
  have l: "local_path_of skip_item = S ''chainsaw_man_colored/Chainsaw Man (Digitally Colored)/01.jpg''"
    by code_simp
  have c: "dir_chain (dirname (local_path_of skip_item))
      = [S ''chainsaw_man_colored'', S ''chainsaw_man_colored/Chainsaw Man (Digitally Colored)'']"
    by code_simp
  have f: "files skip_world (local_path_of skip_item) = Some ''JFIF''"
    unfolding l by (simp add: skip_world_def)
  have n: "\<forall>p \<in> set (dir_chain (dirname (local_path_of skip_item))). files skip_world p = None"
    unfolding c by (simp add: skip_world_def)
  from skipped_item_only_creates_directories
         [of skip_world skip_item "''JFIF''" no_network 3 1, THEN conjunct1, rule_format, OF conjI [OF f n]]
  obtain w' where w': "download_one no_network 3 1 skip_item skip_world
                  = (Inr (Skipped (local_path_of skip_item)), w')"
     "dirs w' = dirs skip_world \<union> set (dir_chain (dirname (local_path_of skip_item)))"
     "files w' (local_path_of skip_item) = Some ''JFIF''" "requests w' = requests skip_world"
    by blast
  from w'(2) have d: "dirs w' = {S ''chainsaw_man_colored'', S ''chainsaw_man_colored/Chainsaw Man (Digitally Colored)''}"
    unfolding c by (auto simp: skip_world_def)
  from w'(4) have r: "requests w' = []" by (simp add: skip_world_def)
  from w'(1) have o: "download_one no_network 3 1 skip_item skip_world
              = (Inr (Skipped (S ''chainsaw_man_colored/Chainsaw Man (Digitally Colored)/01.jpg'')), w')"
    unfolding l .
  have n': "files skip_world (S ''chainsaw_man_colored'') = None"
    "files skip_world (S ''chainsaw_man_colored/Chainsaw Man (Digitally Colored)'') = None"
    by (simp_all add: skip_world_def)
  from f c n' o d w'(3) r show ?thesis by blast
qed

lemma fetch_once_frame:
  "fetch_once r lp w = (eo, w') \<Longrightarrow>
     dirs w' = dirs w \<and> requests w' = requests w \<and> sleeps w' = sleeps w
     \<and> (\<forall>p. p \<noteq> lp \<longrightarrow> files w' p = files w p)
     \<and> (files w lp \<noteq> None \<longrightarrow> files w' lp \<noteq> None)
     \<and> (eo = None \<longrightarrow> files w' lp \<noteq> None)"
  by (cases r) auto

lemma fetch_attempts_frame:
  "fetch_attempts g retries b item lp attempts le w = (st, w') \<Longrightarrow>
     dirs w' = dirs w
     \<and> (\<forall>p. p \<noteq> lp \<longrightarrow> files w' p = files w p)
     \<and> (files w lp \<noteq> None \<longrightarrow> files w' lp \<noteq> None)
     \<and> (\<not> is_failed st \<longrightarrow> files w' lp \<noteq> None)"
proof (induction attempts arbitrary: le w)
  case Nil
  then show ?case by (auto simp: is_failed_def)
next
  case (Cons a attempts)
  let ?w1 = "w\<lparr>requests := requests w @ [url item]\<rparr>"
  obtain eo w2 where f: "fetch_once (g (length (requests w)) (url item)) lp ?w1 = (eo, w2)"
    by (cases "fetch_once (g (length (requests w)) (url item)) lp ?w1")
  note fr = fetch_once_frame [OF f]
  show ?case
  proof (cases eo)
    case None
    with Cons.prems f have "w' = w2" by (simp add: Let_def)
    with fr None show ?thesis by simp
  next
    case (Some e)
    show ?thesis
    proof (cases "a < retries")
      case True
      with Cons.prems f Some
      have "fetch_attempts g retries b item lp attempts (Some e)
              (w2\<lparr>sleeps := sleeps w2 @ [b * real a]\<rparr>) = (st, w')"
        by (simp add: Let_def)
      from Cons.IH [OF this] fr show ?thesis by simp
    next
      case False
      with Cons.prems f Some have "w' = w2" "st = Failed (url item) (Some e)"
        by (simp_all add: Let_def)
      with fr show ?thesis by (simp add: is_failed_def)
    qed
  qed
qed

lemma download_one_invariant:
  assumes d: "download_one g retries b item w = (res, w')" and wf: "no_file_is_dir w"
  shows "no_file_is_dir w' \<and> dirs w \<subseteq> dirs w'
     \<and> (\<forall>p. files w p \<noteq> None \<longrightarrow> files w' p \<noteq> None)
     \<and> (\<forall>st. res = Inr st \<longrightarrow>
           set (dir_chain (dirname (local_path_of item))) \<subseteq> dirs w'
           \<and> (\<not> is_failed st \<longrightarrow> exists_path w' (local_path_of item)))"
proof -
  let ?lp = "local_path_of item"
  obtain r w1 where m: "makedirs (dirname ?lp) w = (r, w1)" by (cases "makedirs (dirname ?lp) w")
  note mr = makedirs_result [OF m]
  from mr wf have wf1: "no_file_is_dir w1"
    unfolding no_file_is_dir_def by (metis DiffI)
  show ?thesis
  proof (cases r)
    case (Some e)
    with d m have "w' = w1" "res = Inl e"
      by (simp_all add: download_one_def local_path_of_def [symmetric] Let_def)
    with mr wf1 show ?thesis by simp
  next
    case None
    with mr have ch: "set (dir_chain (dirname ?lp)) \<subseteq> dirs w1" by simp
    show ?thesis
    proof (cases "exists_path w1 ?lp")
      case True
      with d m None have "w' = w1" "res = Inr (Skipped ?lp)"
        by (simp_all add: download_one_def local_path_of_def [symmetric] Let_def)
      with mr wf1 ch True show ?thesis by simp
    next
      case False
      obtain st w2 where f: "fetch_attempts g retries b item ?lp [1 ..< retries + 1] None w1 = (st, w2)"
        by (cases "fetch_attempts g retries b item ?lp [1 ..< retries + 1] None w1")
      with d m None False have e: "w' = w2" "res = Inr st"
        by (simp_all add: download_one_def local_path_of_def [symmetric] Let_def)
      note fa = fetch_attempts_frame [OF f]
      from False have nd: "?lp \<notin> dirs w1" by (simp add: exists_path_def)
      have "no_file_is_dir w2"
        unfolding no_file_is_dir_def
      proof (intro allI impI)
        fix p assume p: "files w2 p \<noteq> None"
        show "p \<notin> dirs w2"
        proof (cases "p = ?lp")
          case True
          with nd fa show ?thesis by simp
        next
          case False
          with fa p have "files w1 p \<noteq> None" by simp
          with wf1 fa show ?thesis by (simp add: no_file_is_dir_def)
        qed
      qed
      moreover have "files w p \<noteq> None \<longrightarrow> files w2 p \<noteq> None" for p
        using fa mr by (cases "p = ?lp") auto
      ultimately show ?thesis
        using e fa mr ch by (auto simp: exists_path_def)
    qed
  qed
qed

lemma exists_path_mono:
  "dirs w \<subseteq> dirs w' \<Longrightarrow> \<forall>p. files w p \<noteq> None \<longrightarrow> files w' p \<noteq> None \<Longrightarrow>
     exists_path w p \<Longrightarrow> exists_path w' p"
  unfolding exists_path_def by blast

lemma download_all_invariant:
  assumes "download_all g items w = (rs, w')" and "no_file_is_dir w"
  shows "no_file_is_dir w' \<and> dirs w \<subseteq> dirs w'
     \<and> (\<forall>p. files w p \<noteq> None \<longrightarrow> files w' p \<noteq> None)
     \<and> list_all2 (\<lambda>item r. \<forall>st. r = Inr st \<longrightarrow>
           set (dir_chain (dirname (local_path_of item))) \<subseteq> dirs w'
           \<and> (\<not> is_failed st \<longrightarrow> exists_path w' (local_path_of item))) items rs"
  using assms
proof (induction items arbitrary: w rs)
  case Nil
  then show ?case by simp
next
  case (Cons item items)
  obtain r w1 where o: "download_one g 3 1 item w = (r, w1)"
    by (cases "download_one g 3 1 item w")
  obtain rs1 where a: "download_all g items w1 = (rs1, w')" and rs: "rs = r # rs1"
    using Cons.prems(1) o by (auto split: prod.splits)
  note i1 = download_one_invariant [OF o Cons.prems(2)]
  then have "no_file_is_dir w1" by simp
  note i2 = Cons.IH [OF a this]
  from i2 have sub: "dirs w1 \<subseteq> dirs w'"
    and mono: "\<forall>p. files w1 p \<noteq> None \<longrightarrow> files w' p \<noteq> None" by simp_all
  have h: "\<forall>st. r = Inr st \<longrightarrow>
           set (dir_chain (dirname (local_path_of item))) \<subseteq> dirs w'
           \<and> (\<not> is_failed st \<longrightarrow> exists_path w' (local_path_of item))"
  proof (intro allI impI conjI)
    fix st assume r: "r = Inr st"
    with i1 sub show "set (dir_chain (dirname (local_path_of item))) \<subseteq> dirs w'" by blast
    assume "\<not> is_failed st"
    with i1 r have "exists_path w1 (local_path_of item)" by blast
    with sub mono show "exists_path w' (local_path_of item)" by (rule exists_path_mono)
  qed
  from i1 i2 have "dirs w \<subseteq> dirs w'" "\<forall>p. files w p \<noteq> None \<longrightarrow> files w' p \<noteq> None"
    by blast+
  with i2 h rs show ?case by simp
qed

lemma download_all_all_exist:
  assumes "no_file_is_dir w"
      and "\<forall>item \<in> set items. exists_path w (local_path_of item)
             \<and> set (dir_chain (dirname (local_path_of item))) \<subseteq> dirs w"
  shows "download_all g items w = (map (\<lambda>item. Inr (Skipped (local_path_of item))) items, w)"
  using assms(2)
proof (induction items)
  case Nil
  then show ?case by simp
next
  case (Cons item items)
  let ?c = "set (dir_chain (dirname (local_path_of item)))"
  from Cons.prems have e: "exists_path w (local_path_of item)" and c: "?c \<subseteq> dirs w"
    by simp_all
  from c assms(1) have "\<forall>p \<in> ?c. files w p = None"
    by (auto simp: no_file_is_dir_def)
  from download_one_target_exists [OF e this, of g 3 1] c
  have "download_one g 3 1 item w = (Inr (Skipped (local_path_of item)), w)"
    by (simp add: Un_absorb2)
  moreover from Cons have "download_all g items w
      = (map (\<lambda>item. Inr (Skipped (local_path_of item))) items, w)" by simp
  ultimately show ?case by simp
qed

lemma first_raised_map_Inr: "first_raised (map Inr xs) = Inr xs"
  by (induction xs) simp_all

lemma first_raised_Inr: "first_raised rs = Inr xs \<Longrightarrow> rs = map Inr xs"
proof (induction rs arbitrary: xs)
  case Nil
  then show ?case by simp
next
  case (Cons r rs)
  then show ?case
    by (cases r; cases "first_raised rs") auto
qed


lemma second_run_skips_all:
  assumes wf: "no_file_is_dir w"
      and run: "download_images g1 items w = (Inr sts, w1)"
      and ok: "\<forall>st \<in> set sts. \<not> is_failed st"
  shows "download_images g2 items w1
           = (Inr (map (\<lambda>item. Skipped (local_path_of item)) items), w1)"
proof (cases "items = []")
  case True
  with run show ?thesis by (simp add: download_images_def)
next
  case False
  obtain rs where a: "download_all g1 items w = (rs, w1)" and f: "first_raised rs = Inr sts"
    using run False by (auto simp: download_images_def split: prod.splits)
  from first_raised_Inr [OF f] have rs: "rs = map Inr sts" .
  note inv = download_all_invariant [OF a wf]
  have "\<forall>item \<in> set items. exists_path w1 (local_path_of item)
             \<and> set (dir_chain (dirname (local_path_of item))) \<subseteq> dirs w1"
  proof
    fix item assume "item \<in> set items"
    then obtain i where i: "i < length items" "items ! i = item"
      by (auto simp: in_set_conv_nth)
    from inv have l: "list_all2 (\<lambda>item r. \<forall>st. r = Inr st \<longrightarrow>
           set (dir_chain (dirname (local_path_of item))) \<subseteq> dirs w1
           \<and> (\<not> is_failed st \<longrightarrow> exists_path w1 (local_path_of item))) items rs"
      by simp
    then have len: "length rs = length items" by (simp add: list_all2_lengthD)
    with i rs have "rs ! i = Inr (sts ! i)" "sts ! i \<in> set sts" by auto
    with list_all2_nthD [OF l i(1)] ok i(2)
    show "exists_path w1 (local_path_of item)
             \<and> set (dir_chain (dirname (local_path_of item))) \<subseteq> dirs w1"
      by auto
  qed
  with inv have "download_all g2 items w1
      = (map (\<lambda>item. Inr (Skipped (local_path_of item))) items, w1)"
    by (intro download_all_all_exist) simp_all
  moreover have "first_raised (map (\<lambda>item. Inr (Skipped (local_path_of item))) items)
      = Inr (map (\<lambda>item. Skipped (local_path_of item)) items)"
    using first_raised_map_Inr [of "map (\<lambda>item. Skipped (local_path_of item)) items"]
    by (simp add: comp_def)
  ultimately show ?thesis
    using False by (simp add: download_images_def)
qed

lemma upt_1_4: "[1 ..< 3 + 1] = [1, 2, 3 :: nat]"
  by code_simp










lemma download_one_fetches:
  assumes m: "makedirs (dirname (local_path_of item)) w = (None, w1)"
      and n: "\<not> exists_path w1 (local_path_of item)"
  shows "\<exists>st w'. download_one g 3 b item w = (Inr st, w')
           \<and> fetch_attempts g 3 b item (local_path_of item) [1, 2, 3] None w1 = (st, w')"
proof -
  obtain st w' where f: "fetch_attempts g 3 b item (local_path_of item) [1, 2, 3] None w1 = (st, w')"
    by (cases "fetch_attempts g 3 b item (local_path_of item) [1, 2, 3] None w1")
  with m n have "download_one g 3 b item w = (Inr st, w')"
    unfolding download_one_def Let_def local_path_of_def [symmetric] upt_1_4
    by (simp del: fetch_attempts.simps)
  with f show ?thesis by blast
qed


lemma fresh_item_paths:
  "local_path_of fresh_item = S ''chainsaw_man_colored/Chainsaw Man (Digitally Colored)/07.jpg''"
  "dirname (S ''chainsaw_man_colored/Chainsaw Man (Digitally Colored)/07.jpg'')
     = S ''chainsaw_man_colored/Chainsaw Man (Digitally Colored)''"
  "dir_chain (S ''chainsaw_man_colored/Chainsaw Man (Digitally Colored)'')
     = [S ''chainsaw_man_colored'', S ''chainsaw_man_colored/Chainsaw Man (Digitally Colored)'']"
  by code_simp+

lemma fresh_item_makedirs:
  "makedirs (dirname (local_path_of fresh_item)) empty_world = (None, fresh_world)"
  unfolding makedirs_def fresh_item_paths
  by (simp add: empty_world_def fresh_world_def insert_commute)

lemma fresh_item_missing: "\<not> exists_path fresh_world (local_path_of fresh_item)"
  unfolding fresh_item_paths by (simp add: exists_path_def fresh_world_def)


lemma two_failures_then_downloaded:
  "fst (download_one third_time_ok 3 1 fresh_item empty_world)
     = Inr (Downloaded (S ''02'') (S ''Chainsaw Man (Digitally Colored)/07.jpg''))
   \<and> sleeps (snd (download_one third_time_ok 3 1 fresh_item empty_world)) = [1, 2]
   \<and> requests (snd (download_one third_time_ok 3 1 fresh_item empty_world))
       = [S ''https://h/07.jpg'', S ''https://h/07.jpg'', S ''https://h/07.jpg'']"
  by code_simp


text \<open>
  Claim C3. An item whose target exists is reported skipped and no GET request is issued
  for it. When a first run of the Download Manager over a list of records returns with
  no item failed, a second run over the same list reports every item skipped and leaves
  the world as it is, the log of requests included: it performs no network request,
  whatever the network would answer.
\<close>

theorem second_run_issues_no_request:
  "(exists_path w (local_path_of item)
      \<and> (\<forall>p \<in> set (dir_chain (dirname (local_path_of item))). files w p = None)
    \<longrightarrow> (\<exists>w'. download_one g retries b item w = (Inr (Skipped (local_path_of item)), w')
            \<and> requests w' = requests w))
   \<and> (no_file_is_dir w0 \<and> download_images g1 items w0 = (Inr sts, w1)
      \<and> (\<forall>st \<in> set sts. \<not> is_failed st)
    \<longrightarrow> download_images g2 items w1
          = (Inr (map (\<lambda>item. Skipped (local_path_of item)) items), w1)
        \<and> requests (snd (download_images g2 items w1)) = requests w1)"
proof (intro conjI impI)
  assume a: "exists_path w (local_path_of item)
      \<and> (\<forall>p \<in> set (dir_chain (dirname (local_path_of item))). files w p = None)"
  from download_one_target_exists [of w item g retries b] a
  show "\<exists>w'. download_one g retries b item w = (Inr (Skipped (local_path_of item)), w')
            \<and> requests w' = requests w"
    by simp
next
  assume a: "no_file_is_dir w0 \<and> download_images g1 items w0 = (Inr sts, w1)
      \<and> (\<forall>st \<in> set sts. \<not> is_failed st)"
  then have s: "download_images g2 items w1
          = (Inr (map (\<lambda>item. Skipped (local_path_of item)) items), w1)"
    by (intro second_run_skips_all [of w0 g1 items sts w1 g2]) simp_all
  then show "download_images g2 items w1
          = (Inr (map (\<lambda>item. Skipped (local_path_of item)) items), w1)" .
  from s show "requests (snd (download_images g2 items w1)) = requests w1" by simp
qed

lemma first_run_downloads:
  "download_images always_ok [fresh_item] empty_world
     = (Inr [Downloaded (S ''02'') (S ''Chainsaw Man (Digitally Colored)/07.jpg'')], downloaded_world)"
proof -
  have f: "fetch_attempts always_ok 3 1 fresh_item (local_path_of fresh_item) [1, 2, 3] None fresh_world
      = (Downloaded (S ''02'') (S ''Chainsaw Man (Digitally Colored)/07.jpg''), downloaded_world)"
    unfolding fresh_item_paths
    by (simp add: always_ok_def fresh_world_def downloaded_world_def fresh_item_def Let_def
          write_chunks_def)
  from download_one_fetches [OF fresh_item_makedirs fresh_item_missing, of always_ok 1] f
  have "download_one always_ok 3 1 fresh_item empty_world
      = (Inr (Downloaded (S ''02'') (S ''Chainsaw Man (Digitally Colored)/07.jpg'')), downloaded_world)"
    by (auto simp del: fetch_attempts.simps)
  then show ?thesis by (simp add: download_images_def)
qed

theorem second_run_issues_no_request_witness:
  "download_images always_ok [fresh_item] empty_world
       = (Inr [Downloaded (S ''02'') (S ''Chainsaw Man (Digitally Colored)/07.jpg'')], downloaded_world)
   \<and> \<not> is_failed (Downloaded (S ''02'') (S ''Chainsaw Man (Digitally Colored)/07.jpg''))
   \<and> download_images no_network [fresh_item] downloaded_world
       = (Inr [Skipped (S ''chainsaw_man_colored/Chainsaw Man (Digitally Colored)/07.jpg'')], downloaded_world)
   \<and> requests downloaded_world = [S ''https://h/07.jpg'']"
proof -
  have w: "no_file_is_dir empty_world"
    by (simp add: no_file_is_dir_def empty_world_def)
  have n: "\<forall>st \<in> set [Downloaded (S ''02'') (S ''Chainsaw Man (Digitally Colored)/07.jpg'')]. \<not> is_failed st"
    by (simp add: is_failed_def)
  from second_run_issues_no_request
         [of _ _ _ _ _ empty_world always_ok "[fresh_item]" _ downloaded_world no_network,
          THEN conjunct2, rule_format, OF conjI [OF w conjI [OF first_run_downloads n]]]
  have "download_images no_network [fresh_item] downloaded_world
       = (Inr [Skipped (S ''chainsaw_man_colored/Chainsaw Man (Digitally Colored)/07.jpg'')], downloaded_world)"
    by (simp add: fresh_item_paths)
  moreover have "requests downloaded_world = [S ''https://h/07.jpg'']"
    by (simp add: downloaded_world_def)
  moreover have "\<not> is_failed (Downloaded (S ''02'') (S ''Chainsaw Man (Digitally Colored)/07.jpg''))"
    by (simp add: is_failed_def)
  ultimately show ?thesis using first_run_downloads by simp
qed

section \<open>Properties of the PDF Renderer\<close>

lemma open_images_map_filter:
  "open_images e w entries images = images @ List.map_filter (opened_image e w) entries"
proof (induction entries arbitrary: images)
  case Nil
  then show ?case by (simp add: List.map_filter_simps)
next
  case (Cons t entries)
  obtain rel_path full_path where t: "t = (rel_path, full_path)" by (cases t)
  show ?case
    unfolding t by (cases "open_rgb e w full_path")
      (simp_all add: Cons.IH List.map_filter_simps opened_image_def)
qed

lemma length_map_filter:
  "length (List.map_filter f xs) = length (filter (\<lambda>x. f x \<noteq> None) xs)"
  by (simp add: List.map_filter_def)

text \<open>
  Claim C5, as amended. The PDF Renderer writes nothing and reports a no-op when the
  collector returns no image, and when the PDF of the volume is there. Otherwise the
  images are opened in collector order and one that fails to open is left out, without
  an effect on the rest. When none opens, nothing is written. When N of them open, the
  encoder is called once with these N pages in collector order: when it returns,
  exactly one file is written, the PDF of the volume with these pages; when it raises,
  nothing is written and its exception leaves the renderer.
\<close>

theorem pdf_renderer_outcomes:
  "(collect_images_for_volume (os_walk e w) v = []
      \<longrightarrow> build_pdf_for_volume e w v = (Inr NoImages, w))
   \<and> (collect_images_for_volume (os_walk e w) v \<noteq> [] \<and> exists_path w (pdf_path_of v)
      \<longrightarrow> build_pdf_for_volume e w v = (Inr PdfExists, w))
   \<and> (collect_images_for_volume (os_walk e w) v \<noteq> [] \<and> \<not> exists_path w (pdf_path_of v)
       \<and> List.map_filter (opened_image e w) (collect_images_for_volume (os_walk e w) v) = []
      \<longrightarrow> build_pdf_for_volume e w v = (Inr NoValidImages, w))
   \<and> (collect_images_for_volume (os_walk e w) v \<noteq> [] \<and> \<not> exists_path w (pdf_path_of v)
       \<and> List.map_filter (opened_image e w) (collect_images_for_volume (os_walk e w) v) = pages
       \<and> pages \<noteq> [] \<and> save_pdf e pages = Inr bytes
      \<longrightarrow> build_pdf_for_volume e w v
            = (Inr (PdfSaved (pdf_path_of v) pages), w\<lparr>files := (files w)(pdf_path_of v \<mapsto> bytes)\<rparr>)
          \<and> length pages
            = length (filter (\<lambda>t. opened_image e w t \<noteq> None)
                        (collect_images_for_volume (os_walk e w) v)))
   \<and> (collect_images_for_volume (os_walk e w) v \<noteq> [] \<and> \<not> exists_path w (pdf_path_of v)
       \<and> List.map_filter (opened_image e w) (collect_images_for_volume (os_walk e w) v) = pages
       \<and> pages \<noteq> [] \<and> save_pdf e pages = Inl err
      \<longrightarrow> build_pdf_for_volume e w v = (Inl err, w))"
proof (intro conjI impI)
  assume "collect_images_for_volume (os_walk e w) v = []"
  then show "build_pdf_for_volume e w v = (Inr NoImages, w)"
    by (simp add: build_pdf_for_volume_def)
next
  assume "collect_images_for_volume (os_walk e w) v \<noteq> [] \<and> exists_path w (pdf_path_of v)"
  then show "build_pdf_for_volume e w v = (Inr PdfExists, w)"
    by (simp add: build_pdf_for_volume_def pdf_path_of_def Let_def)
next
  assume "collect_images_for_volume (os_walk e w) v \<noteq> [] \<and> \<not> exists_path w (pdf_path_of v)
       \<and> List.map_filter (opened_image e w) (collect_images_for_volume (os_walk e w) v) = []"
  then show "build_pdf_for_volume e w v = (Inr NoValidImages, w)"
    by (simp add: build_pdf_for_volume_def pdf_path_of_def Let_def open_images_map_filter)
next
  assume a: "collect_images_for_volume (os_walk e w) v \<noteq> [] \<and> \<not> exists_path w (pdf_path_of v)
       \<and> List.map_filter (opened_image e w) (collect_images_for_volume (os_walk e w) v) = pages
       \<and> pages \<noteq> [] \<and> save_pdf e pages = Inr bytes"
  then obtain first appended where p: "pages = first # appended" by (cases pages) auto
  with a show "build_pdf_for_volume e w v
            = (Inr (PdfSaved (pdf_path_of v) pages), w\<lparr>files := (files w)(pdf_path_of v \<mapsto> bytes)\<rparr>)"
    by (simp add: build_pdf_for_volume_def pdf_path_of_def Let_def open_images_map_filter)
  from a show "length pages
            = length (filter (\<lambda>t. opened_image e w t \<noteq> None)
                        (collect_images_for_volume (os_walk e w) v))"
    by (auto simp: length_map_filter)
next
  assume a: "collect_images_for_volume (os_walk e w) v \<noteq> [] \<and> \<not> exists_path w (pdf_path_of v)
       \<and> List.map_filter (opened_image e w) (collect_images_for_volume (os_walk e w) v) = pages
       \<and> pages \<noteq> [] \<and> save_pdf e pages = Inl err"
  then obtain first appended where p: "pages = first # appended" by (cases pages) auto
  with a show "build_pdf_for_volume e w v = (Inl err, w)"
    by (simp add: build_pdf_for_volume_def pdf_path_of_def Let_def open_images_map_filter)
qed

text \<open>
  The claim as first stated has the PDF written whenever an image opens. In the volume
  below the one image opens and the PDF is not there; the encoder finds the image
  truncated and raises: no PDF is written, and the renderer does not return.
\<close>

theorem pdf_not_written_when_encoder_raises:
  "collect_images_for_volume (os_walk save_fails_env one_page_world) (S ''01'')
     = [(S ''Chainsaw Man (Digitally Colored)/Digital Colored Comics v01/Chapter 1 - Dog/01.jpg'',
         (S ''chainsaw_man_colored/Chainsaw Man (Digitally Colored)/Digital Colored Comics v01/Chapter 1 - Dog/01.jpg''))]
   \<and> \<not> exists_path one_page_world (pdf_path_of (S ''01''))
   \<and> List.map_filter (opened_image save_fails_env one_page_world)
        (collect_images_for_volume (os_walk save_fails_env one_page_world) (S ''01''))
      = [\<lparr>mode = S ''RGB'', pixels = ''JFIF''\<rparr>]
   \<and> fst (build_pdf_for_volume save_fails_env one_page_world (S ''01''))
      = Inl (ImageError ''truncated'')
   \<and> files (snd (build_pdf_for_volume save_fails_env one_page_world (S ''01'')))
        (pdf_path_of (S ''01'')) = None"
  by code_simp

lemma two_page_collect:
  "collect_images_for_volume (os_walk two_page_env two_page_world) (S ''01'') =
     [(S ''Chainsaw Man (Digitally Colored)/Digital Colored Comics v01/Chapter 1 - Dog/01.jpg'',
       (S ''chainsaw_man_colored/Chainsaw Man (Digitally Colored)/Digital Colored Comics v01/Chapter 1 - Dog/01.jpg'')),
      (S ''Chainsaw Man (Digitally Colored)/Digital Colored Comics v01/Chapter 1 - Dog/02.jpg'',
       (S ''chainsaw_man_colored/Chainsaw Man (Digitally Colored)/Digital Colored Comics v01/Chapter 1 - Dog/02.jpg'')),
      (S ''Chainsaw Man (Digitally Colored)/Digital Colored Comics v01/Chapter 1 - Dog/03.jpg'',
       (S ''chainsaw_man_colored/Chainsaw Man (Digitally Colored)/Digital Colored Comics v01/Chapter 1 - Dog/03.jpg''))]"
  by code_simp

lemma two_page_opened:
  "List.map_filter (opened_image two_page_env two_page_world)
     (collect_images_for_volume (os_walk two_page_env two_page_world) (S ''01''))
   = [\<lparr>mode = S ''RGB'', pixels = ''one''\<rparr>, \<lparr>mode = S ''RGB'', pixels = ''three''\<rparr>]"
  unfolding two_page_collect
  by (simp add: List.map_filter_simps opened_image_def open_rgb_def two_page_env_def two_page_world_def)

theorem pdf_renderer_outcomes_witness:
  "collect_images_for_volume (os_walk two_page_env two_page_world) (S ''01'') \<noteq> []
   \<and> \<not> exists_path two_page_world (pdf_path_of (S ''01''))
   \<and> List.map_filter (opened_image two_page_env two_page_world)
        (collect_images_for_volume (os_walk two_page_env two_page_world) (S ''01''))
      = [\<lparr>mode = S ''RGB'', pixels = ''one''\<rparr>, \<lparr>mode = S ''RGB'', pixels = ''three''\<rparr>]
   \<and> save_pdf two_page_env [\<lparr>mode = S ''RGB'', pixels = ''one''\<rparr>, \<lparr>mode = S ''RGB'', pixels = ''three''\<rparr>]
      = Inr ''onethree''
   \<and> build_pdf_for_volume two_page_env two_page_world (S ''01'')
      = (Inr (PdfSaved (pdf_path_of (S ''01''))
                [\<lparr>mode = S ''RGB'', pixels = ''one''\<rparr>, \<lparr>mode = S ''RGB'', pixels = ''three''\<rparr>]),
         two_page_world\<lparr>files := (files two_page_world)(pdf_path_of (S ''01'') \<mapsto> ''onethree'')\<rparr>)
   \<and> pdf_path_of (S ''01'') = S ''chainsaw_man_colored/pdfs/Chainsaw_Man_Digitally_Colored_v01.pdf''"
proof -
  let ?pages = "[\<lparr>mode = S ''RGB'', pixels = ''one''\<rparr>, \<lparr>mode = S ''RGB'', pixels = ''three''\<rparr>]"
  have p: "pdf_path_of (S ''01'') = S ''chainsaw_man_colored/pdfs/Chainsaw_Man_Digitally_Colored_v01.pdf''"
    by code_simp
  have c: "collect_images_for_volume (os_walk two_page_env two_page_world) (S ''01'') \<noteq> []"
    unfolding two_page_collect by simp
  have x: "\<not> exists_path two_page_world (pdf_path_of (S ''01''))"
    unfolding p by (simp add: exists_path_def two_page_world_def)
  have s: "save_pdf two_page_env ?pages = Inr ''onethree''"
    by (simp add: two_page_env_def)
  have n: "?pages \<noteq> []" by simp
  from pdf_renderer_outcomes [of two_page_env two_page_world "S ''01''" ?pages "''onethree''",
         THEN conjunct2, THEN conjunct2, THEN conjunct2, THEN conjunct1, rule_format,
         OF conjI [OF c conjI [OF x conjI [OF two_page_opened conjI [OF n s]]]]]
  have b: "build_pdf_for_volume two_page_env two_page_world (S ''01'')
      = (Inr (PdfSaved (pdf_path_of (S ''01'')) ?pages),
         two_page_world\<lparr>files := (files two_page_world)(pdf_path_of (S ''01'') \<mapsto> ''onethree'')\<rparr>)"
    by simp
  from c x two_page_opened s b p show ?thesis by (intro conjI)
qed

section \<open>Properties of the EPUB Renderer\<close>

lemma foldl_seen_distinct_set:
  "distinct seen \<Longrightarrow>
     distinct (foldl (\<lambda>seen x. if x \<in> set seen then seen else seen @ [x]) seen xs)
     \<and> set (foldl (\<lambda>seen x. if x \<in> set seen then seen else seen @ [x]) seen xs) = set seen \<union> set xs"
  by (induction xs arbitrary: seen) auto

lemma distinct_first_seen: "distinct (first_seen xs)"
  unfolding first_seen_def using foldl_seen_distinct_set [of "[]" xs] by simp

lemma set_first_seen: "set (first_seen xs) = set xs"
  unfolding first_seen_def using foldl_seen_distinct_set [of "[]" xs] by simp

lemma add_to_chapter_keys:
  "map fst (add_to_chapter chapters l t) =
     (if l \<in> set (map fst chapters) then map fst chapters else map fst chapters @ [l])"
  by (induction chapters l t rule: add_to_chapter.induct) auto

lemma add_to_chapter_length:
  "length (concat (map snd (add_to_chapter chapters l t))) = Suc (length (concat (map snd chapters)))"
  by (induction chapters l t rule: add_to_chapter.induct) auto

lemma add_to_chapter_set:
  "distinct (map fst chapters) \<Longrightarrow>
     set (add_to_chapter chapters l t) =
       (if l \<in> set (map fst chapters)
        then {(k, ps). (k, ps) \<in> set chapters \<and> k \<noteq> l} \<union> {(l, ps @ [t]) | ps. (l, ps) \<in> set chapters}
        else set chapters \<union> {(l, [t])})"
proof (induction chapters l t rule: add_to_chapter.induct)
  case (1 chap_label entry)
  then show ?case by simp
next
  case (2 l pages chapters chap_label entry)
  show ?case
  proof (cases "l = chap_label")
    case True
    with "2.prems" show ?thesis by (auto simp: image_iff)
  next
    case False
    with "2.prems" "2.IH" show ?thesis by (auto simp: image_iff)
  qed
qed

lemma group_chapters_invariant:
  assumes "distinct (map fst chapters)"
      and "\<forall>c \<in> set chapters. snd c = filter (\<lambda>t. label_of t = fst c) seen \<and> snd c \<noteq> []"
      and "\<forall>t \<in> set seen. label_of t \<in> set (map fst chapters)"
  shows "distinct (map fst (group_chapters entries chapters))
     \<and> (\<forall>c \<in> set (group_chapters entries chapters).
           snd c = filter (\<lambda>t. label_of t = fst c) (seen @ entries) \<and> snd c \<noteq> [])
     \<and> map fst (group_chapters entries chapters)
         = foldl (\<lambda>seen x. if x \<in> set seen then seen else seen @ [x]) (map fst chapters)
             (map label_of entries)
     \<and> length (concat (map snd (group_chapters entries chapters)))
         = length (concat (map snd chapters)) + length entries"
  using assms
proof (induction entries arbitrary: chapters seen)
  case Nil
  then show ?case by auto
next
  case (Cons t entries)
  obtain rel_path full_path where t: "t = (rel_path, full_path)" by (cases t)
  let ?l = "label_of t"
  let ?ch = "add_to_chapter chapters ?l t"
  have g: "group_chapters (t # entries) chapters = group_chapters entries ?ch"
    by (simp add: t label_of_def)
  have d: "distinct (map fst ?ch)"
    using Cons.prems(1) by (simp add: add_to_chapter_keys)
  have s: "\<forall>c \<in> set ?ch. snd c = filter (\<lambda>t. label_of t = fst c) (seen @ [t]) \<and> snd c \<noteq> []"
  proof (cases "?l \<in> set (map fst chapters)")
    case True
    with Cons.prems(1,2) show ?thesis
      unfolding add_to_chapter_set [OF Cons.prems(1)] by auto
  next
    case False
    have "label_of u \<noteq> ?l" if "u \<in> set seen" for u
      using that Cons.prems(3) False by metis
    then have "filter (\<lambda>u. label_of u = ?l) seen = []"
      by (simp add: filter_empty_conv)
    with False Cons.prems(1,2) show ?thesis
      unfolding add_to_chapter_set [OF Cons.prems(1)] by auto
  qed
  have c: "\<forall>u \<in> set (seen @ [t]). label_of u \<in> set (map fst ?ch)"
    using Cons.prems(3) by (auto simp: add_to_chapter_keys)
  note ih = Cons.IH [OF d s c]
  have a: "(seen @ [t]) @ entries = seen @ t # entries" by simp
  have k: "foldl (\<lambda>seen x. if x \<in> set seen then seen else seen @ [x]) (map fst chapters)
             (map label_of (t # entries))
      = foldl (\<lambda>seen x. if x \<in> set seen then seen else seen @ [x]) (map fst ?ch)
             (map label_of entries)"
    by (simp add: add_to_chapter_keys)
  have n: "length (concat (map snd ?ch)) + length entries
      = length (concat (map snd chapters)) + length (t # entries)"
    by (simp add: add_to_chapter_length)
  from ih show ?case
    unfolding g a k n by blast
qed

lemma group_chapters_result:
  "distinct (map fst (group_chapters entries []))
   \<and> (\<forall>c \<in> set (group_chapters entries []).
         snd c = filter (\<lambda>t. label_of t = fst c) entries \<and> snd c \<noteq> [])
   \<and> map fst (group_chapters entries []) = first_seen (map label_of entries)
   \<and> length (concat (map snd (group_chapters entries []))) = length entries"
  unfolding first_seen_def
  by (rule group_chapters_invariant [where chapters = "[]" and seen = "[]" and entries = entries,
        simplified])

lemma group_chapters_concat:
  "concat (map snd (group_chapters entries []))
     = concat (map (\<lambda>l. filter (\<lambda>t. label_of t = l) entries) (first_seen (map label_of entries)))"
proof -
  let ?G = "group_chapters entries []"
  note r = group_chapters_result [of entries]
  from r have "\<forall>c \<in> set ?G. snd c = filter (\<lambda>t. label_of t = fst c) entries" by blast
  then have "map snd ?G = map (\<lambda>c. filter (\<lambda>t. label_of t = fst c) entries) ?G"
    by (intro map_cong) simp_all
  also have "\<dots> = map (\<lambda>l. filter (\<lambda>t. label_of t = l) entries) (map fst ?G)"
    by (simp add: comp_def)
  also from r have "map fst ?G = first_seen (map label_of entries)" by blast
  finally show ?thesis by simp
qed

lemma chapter_pages_sources:
  "chapter_pages w v ci l k pages = Inr ps \<Longrightarrow> map page_source ps = pages"
proof (induction pages arbitrary: k ps)
  case Nil
  then show ?case by auto
next
  case (Cons t pages)
  obtain rel_path full_path where t: "t = (rel_path, full_path)" by (cases t)
  from Cons.prems obtain bytes ps' where
    "files w full_path = Some bytes" "chapter_pages w v ci l (Suc k) pages = Inr ps'"
    "ps = make_page v ci l k (rel_path, full_path) bytes # ps'"
    unfolding t by (auto split: option.splits sum.splits)
  with Cons.IH [of "Suc k" ps'] show ?case
    by (simp add: t make_page_def Let_def)
qed

lemma chapter_pages_first:
  assumes "chapter_pages w v ci l k (t # pages) = Inr ps"
  shows "\<exists>p rest. ps = p # rest \<and> page_source p = t
     \<and> page_file_name p = S ''text/v'' @ v @ S ''_'' @ str_nat ci @ S ''_'' @ str_nat k @ S ''.xhtml''"
proof -
  obtain rel_path full_path where t: "t = (rel_path, full_path)" by (cases t)
  from assms obtain bytes ps' where
    "ps = make_page v ci l k (rel_path, full_path) bytes # ps'"
    unfolding t by (auto split: option.splits sum.splits)
  then show ?thesis
    by (simp add: t make_page_def Let_def)
qed

lemma chapter_pages_ok:
  "\<forall>t \<in> set pages. files w (snd t) \<noteq> None \<Longrightarrow> \<exists>ps. chapter_pages w v ci l k pages = Inr ps"
proof (induction pages arbitrary: k)
  case Nil
  then show ?case by simp
next
  case (Cons t pages)
  obtain rel_path full_path where t: "t = (rel_path, full_path)" by (cases t)
  from Cons.prems obtain bytes where b: "files w full_path = Some bytes" by (auto simp: t)
  from Cons.prems Cons.IH [of "Suc k"] obtain ps where
    "chapter_pages w v ci l (Suc k) pages = Inr ps" by auto
  with b show ?case by (simp add: t)
qed

lemma chapters_loop_ok:
  "\<forall>c \<in> set chapters. \<forall>t \<in> set (snd c). files w (snd t) \<noteq> None \<Longrightarrow>
     \<exists>r. chapters_loop w v ci chapters sp tls = Inr r"
proof (induction chapters arbitrary: ci sp tls)
  case Nil
  then show ?case by simp
next
  case (Cons c chapters)
  obtain l pages where c: "c = (l, pages)" by (cases c)
  from Cons.prems have "\<forall>t \<in> set pages. files w (snd t) \<noteq> None" by (simp add: c)
  from chapter_pages_ok [OF this, of v "Suc ci" l 1] obtain ps where
    ps: "chapter_pages w v (Suc ci) l 1 pages = Inr ps" by blast
  from Cons.prems have "\<forall>c \<in> set chapters. \<forall>t \<in> set (snd c). files w (snd t) \<noteq> None" by simp
  from Cons.IH [OF this] ps show ?case by (simp add: c)
qed

lemma chapters_loop_result:
  assumes "chapters_loop w v ci chapters sp tls = Inr (spine_items, toc_links)"
      and "\<forall>c \<in> set chapters. snd c \<noteq> []"
  shows "map page_source spine_items = map page_source sp @ concat (map snd chapters)
     \<and> set sp \<subseteq> set spine_items
     \<and> (\<exists>links. toc_links = tls @ links
          \<and> list_all2 (\<lambda>link c. link_title link = fst c
                \<and> (\<exists>p \<in> set spine_items. link_href link = page_file_name p
                      \<and> page_source p = hd (snd c))) links chapters)"
  using assms
proof (induction chapters arbitrary: ci sp tls)
  case Nil
  then show ?case by simp
next
  case (Cons c chapters)
  obtain l pages where c: "c = (l, pages)" by (cases c)
  from Cons.prems(2) obtain t rest where pages: "pages = t # rest"
    by (cases pages) (auto simp: c)
  from Cons.prems(1) obtain ps where
    ps: "chapter_pages w v (Suc ci) l 1 pages = Inr ps"
    by (auto simp: c split: sum.splits)
  from chapter_pages_first [OF ps [unfolded pages]] obtain p more_pages where
    p: "ps = p # more_pages" "page_source p = t" by blast
  let ?link = "\<lparr>link_href = page_file_name p, link_title = l,
                 link_uid = S ''toc_v'' @ v @ S ''_chap_'' @ str_nat (Suc ci)\<rparr>"
  from Cons.prems(1) ps p have r:
    "chapters_loop w v (Suc ci) chapters (sp @ ps) (tls @ [?link]) = Inr (spine_items, toc_links)"
    by (simp add: c)
  from Cons.prems(2) have "\<forall>c \<in> set chapters. snd c \<noteq> []" by simp
  from Cons.IH [OF r this] obtain links where
    s: "map page_source spine_items = map page_source (sp @ ps) @ concat (map snd chapters)"
    and sub: "set (sp @ ps) \<subseteq> set spine_items"
    and tls: "toc_links = (tls @ [?link]) @ links"
    and la: "list_all2 (\<lambda>link c. link_title link = fst c
                \<and> (\<exists>p \<in> set spine_items. link_href link = page_file_name p
                      \<and> page_source p = hd (snd c))) links chapters"
    by blast
  from sub p have pin: "p \<in> set spine_items" by auto
  have "map page_source spine_items = map page_source sp @ concat (map snd (c # chapters))"
    using s chapter_pages_sources [OF ps] by (simp add: c)
  moreover from sub have "set sp \<subseteq> set spine_items" by simp
  moreover have "toc_links = tls @ (?link # links)" using tls by simp
  moreover have "list_all2 (\<lambda>link c. link_title link = fst c
                \<and> (\<exists>p \<in> set spine_items. link_href link = page_file_name p
                      \<and> page_source p = hd (snd c))) (?link # links) (c # chapters)"
    using la pin p by (auto simp: c pages)
  ultimately show ?case by blast
qed

lemma first_seen_snoc:
  "first_seen (ls @ [l]) = (if l \<in> set ls then first_seen ls else first_seen ls @ [l])"
proof -
  have "first_seen (ls @ [l])
      = (if l \<in> set (first_seen ls) then first_seen ls else first_seen ls @ [l])"
    by (simp add: first_seen_def)
  then show ?thesis by (simp add: set_first_seen)
qed

lemma contiguous_snoc:
  "contiguous (ls @ [l]) \<Longrightarrow> contiguous ls \<and> (l \<in> set ls \<longrightarrow> last ls = l)"
proof (induction ls)
  case Nil
  then show ?case by simp
next
  case (Cons x ls)
  from Cons.prems have n: "x \<notin> set (dropWhile (\<lambda>y. y = x) (ls @ [l]))"
    and c: "contiguous (ls @ [l])" by simp_all
  from Cons.IH [OF c] have ih: "contiguous ls" "l \<in> set ls \<longrightarrow> last ls = l" by simp_all
  have d: "x \<notin> set (dropWhile (\<lambda>y. y = x) ls)"
  proof (cases "\<forall>y \<in> set ls. y = x")
    case True
    then have e: "dropWhile (\<lambda>y. y = x) ls = []" by simp
    show ?thesis unfolding e by simp
  next
    case False
    then obtain z where z: "z \<in> set ls" "z \<noteq> x" by auto
    then have "dropWhile (\<lambda>y. y = x) (ls @ [l]) = dropWhile (\<lambda>y. y = x) ls @ [l]"
      by (intro dropWhile_append1 [of z]) simp_all
    with n show ?thesis by simp
  qed
  have "last (x # ls) = l" if l: "l \<in> set (x # ls)"
  proof (cases "ls = []")
    case True
    with l show ?thesis by simp
  next
    case ne: False
    show ?thesis
    proof (cases "l \<in> set ls")
      case True
      with ih ne show ?thesis by simp
    next
      case False
      with l have lx: "l = x" by simp
      show ?thesis
      proof (cases "\<forall>y \<in> set ls. y = x")
        case True
        with ne have "last ls = x" by (metis last_in_set)
        with ne lx show ?thesis by simp
      next
        case False
        then obtain z where z: "z \<in> set ls" "z \<noteq> x" by auto
        then have "dropWhile (\<lambda>y. y = x) (ls @ [l]) = dropWhile (\<lambda>y. y = x) ls @ [l]"
          by (intro dropWhile_append1 [of z]) simp_all
        with n lx show ?thesis by simp
      qed
    qed
  qed
  with ih d show ?case by simp
qed

lemma last_first_seen:
  "contiguous ls \<Longrightarrow> ls \<noteq> [] \<Longrightarrow> last (first_seen ls) = last ls"
proof (induction ls rule: rev_induct)
  case Nil
  then show ?case by simp
next
  case (snoc l ls)
  from contiguous_snoc [OF snoc.prems(1)] have c: "contiguous ls" "l \<in> set ls \<longrightarrow> last ls = l"
    by simp_all
  show ?case
  proof (cases "l \<in> set ls")
    case True
    then have "ls \<noteq> []" by auto
    with snoc.IH c True show ?thesis by (simp add: first_seen_snoc)
  next
    case False
    then show ?thesis by (simp add: first_seen_snoc)
  qed
qed

lemma grouped_contiguous:
  "contiguous (map f xs) \<Longrightarrow>
     concat (map (\<lambda>l. filter (\<lambda>t. f t = l) xs) (first_seen (map f xs))) = xs"
proof (induction xs rule: rev_induct)
  case Nil
  then show ?case by (simp add: first_seen_def)
next
  case (snoc t xs)
  let ?L = "first_seen (map f xs)"
  define F where "F = (\<lambda>l. filter (\<lambda>u. f u = l) xs)"
  define F' where "F' = (\<lambda>l. filter (\<lambda>u. f u = l) (xs @ [t]))"
  have same: "F' l = F l" if "l \<noteq> f t" for l
    using that by (auto simp: F_def F'_def)
  have grown: "F' (f t) = F (f t) @ [t]"
    by (simp add: F_def F'_def)
  from snoc.prems have cs: "contiguous (map f xs @ [f t])" by simp
  from contiguous_snoc [OF cs] have c: "contiguous (map f xs)"
    and lst: "f t \<in> set (map f xs) \<longrightarrow> last (map f xs) = f t" by simp_all
  from snoc.IH [OF c] have ih: "concat (map F ?L) = xs" by (simp only: F_def)
  have "concat (map F' (first_seen (map f (xs @ [t])))) = xs @ [t]"
  proof (cases "f t \<in> set (map f xs)")
    case False
    then have L': "first_seen (map f (xs @ [t])) = ?L @ [f t]"
      by (simp add: first_seen_snoc)
    have "f u \<noteq> f t" if "u \<in> set xs" for u
      using that False by (metis imageI set_map)
    then have e: "F (f t) = []"
      by (simp add: F_def filter_empty_conv)
    have "l \<noteq> f t" if "l \<in> set ?L" for l
    proof -
      from that have "l \<in> set (map f xs)" by (simp only: set_first_seen)
      with False show ?thesis by blast
    qed
    then have m: "map F' ?L = map F ?L"
      by (intro map_cong) (simp_all add: same)
    have "concat (map F' (?L @ [f t])) = concat (map F' ?L) @ F' (f t)" by simp
    also have "\<dots> = xs @ [t]" unfolding m ih grown e by simp
    finally show ?thesis unfolding L' .
  next
    case True
    then have L': "first_seen (map f (xs @ [t])) = ?L"
      by (simp add: first_seen_snoc)
    from True have ne: "map f xs \<noteq> []" by auto
    from last_first_seen [OF c ne] lst True have ll: "last ?L = f t" by simp
    from ne have Lne: "?L \<noteq> []" using set_first_seen [of "map f xs"] by auto
    define B where "B = butlast ?L"
    from Lne ll have sp: "?L = B @ [f t]"
      unfolding B_def by (metis append_butlast_last_id)
    from distinct_first_seen [of "map f xs"] have "distinct (B @ [f t])"
      unfolding sp [symmetric] .
    then have nb: "\<forall>l \<in> set B. l \<noteq> f t" by auto
    then have b: "map F' B = map F B"
      by (intro map_cong) (simp_all add: same)
    have "concat (map F' ?L) = concat (map F' (B @ [f t]))"
      using sp by simp
    also have "\<dots> = concat (map F' B) @ F' (f t)" by simp
    also have "\<dots> = (concat (map F B) @ F (f t)) @ [t]" unfolding b grown by simp
    also have "concat (map F B) @ F (f t) = concat (map F (B @ [f t]))" by simp
    also have "\<dots> = xs" unfolding sp [symmetric] by (rule ih)
    finally show ?thesis unfolding L' .
  qed
  then show ?case by (simp only: F'_def)
qed

text \<open>
  The claim as first stated has the spine in the collector's order. In the volume below
  two directories carry the chapter number 1; the collector puts page 2 of the one
  between pages 1 and 3 of the other, and the spine lists the pages of the first label
  before the page of the second.
\<close>

theorem epub_spine_regrouped_by_chapter:
  "collect_images_for_volume (os_walk split_env split_world) (S ''01'') =
     [(S ''Digital Colored Comics v01/Chapter 1 - B/01.jpg'',
       (S ''chainsaw_man_colored/Digital Colored Comics v01/Chapter 1 - B/01.jpg'')),
      (S ''Digital Colored Comics v01/Chapter 1 - A/02.jpg'',
       (S ''chainsaw_man_colored/Digital Colored Comics v01/Chapter 1 - A/02.jpg'')),
      (S ''Digital Colored Comics v01/Chapter 1 - B/03.jpg'',
       (S ''chainsaw_man_colored/Digital Colored Comics v01/Chapter 1 - B/03.jpg''))]
   \<and> spine_sources_of (fst (build_epub_for_volume split_env zip_writer split_world (S ''01''))) =
       Some [(S ''Digital Colored Comics v01/Chapter 1 - B/01.jpg'',
              (S ''chainsaw_man_colored/Digital Colored Comics v01/Chapter 1 - B/01.jpg'')),
             (S ''Digital Colored Comics v01/Chapter 1 - B/03.jpg'',
              (S ''chainsaw_man_colored/Digital Colored Comics v01/Chapter 1 - B/03.jpg'')),
             (S ''Digital Colored Comics v01/Chapter 1 - A/02.jpg'',
              (S ''chainsaw_man_colored/Digital Colored Comics v01/Chapter 1 - A/02.jpg''))]
   \<and> toc_of (fst (build_epub_for_volume split_env zip_writer split_world (S ''01''))) =
       Some [(S ''Chapter 1 - B'', S ''text/v01_1_1.xhtml''), (S ''Chapter 1 - A'', S ''text/v01_2_1.xhtml'')]"
  by code_simp

lemma list_all2_in_set:
  "list_all2 R xs ys \<Longrightarrow> x \<in> set xs \<Longrightarrow> \<exists>y \<in> set ys. R x y"
  by (induction xs ys rule: list_all2_induct) auto

lemma list_all2_map_eq:
  "list_all2 (\<lambda>x y. f x = g y \<and> Q x y) xs ys \<Longrightarrow> map f xs = map g ys"
  by (induction xs ys rule: list_all2_induct) auto

text \<open>
  Claim C6, as amended. For a volume with a non-empty collector output whose images can
  be read and whose package is written, the EPUB has a table of contents with exactly
  the distinct chapter labels, in the order of their first occurrence, each entry
  linking to the page of the first image of its chapter; a spine with as many pages as
  there are images; and in the spine the pages stand chapter group after chapter group,
  the groups in the order of the table of contents and each group in collector order.
  This is the collector's order when the images of every chapter label stand together
  in the collector's output.
\<close>

theorem epub_toc_and_spine:
  "collect_images_for_volume (os_walk e w) v = entries \<and> entries \<noteq> []
     \<and> (\<forall>t \<in> set entries. files w (snd t) \<noteq> None)
     \<and> (\<forall>bk. \<exists>bytes. write_epub bk = Inr bytes)
   \<longrightarrow> (\<exists>bk. fst (build_epub_for_volume e write_epub w v) = Inr (EpubSaved (epub_path_of v) bk)
        \<and> map link_title (toc bk) = first_seen (map label_of entries)
        \<and> distinct (map link_title (toc bk))
        \<and> set (map link_title (toc bk)) = label_of ` set entries
        \<and> (\<forall>link \<in> set (toc bk). \<exists>p \<in> set (spine bk). link_href link = page_file_name p
              \<and> page_source p = hd (filter (\<lambda>t. label_of t = link_title link) entries))
        \<and> length (spine bk) = length entries
        \<and> map page_source (spine bk)
            = concat (map (\<lambda>l. filter (\<lambda>t. label_of t = l) entries)
                        (first_seen (map label_of entries)))
        \<and> (contiguous (map label_of entries) \<longrightarrow> map page_source (spine bk) = entries))"
proof
  assume a: "collect_images_for_volume (os_walk e w) v = entries \<and> entries \<noteq> []
     \<and> (\<forall>t \<in> set entries. files w (snd t) \<noteq> None)
     \<and> (\<forall>bk. \<exists>bytes. write_epub bk = Inr bytes)"
  let ?G = "group_chapters entries []"
  note g = group_chapters_result [of entries]
  from g have gsnd: "\<forall>c \<in> set ?G. snd c = filter (\<lambda>t. label_of t = fst c) entries"
    and gne: "\<forall>c \<in> set ?G. snd c \<noteq> []"
    and gkeys: "map fst ?G = first_seen (map label_of entries)"
    and glen: "length (concat (map snd ?G)) = length entries"
    by blast+
  from gsnd a have "\<forall>c \<in> set ?G. \<forall>t \<in> set (snd c). files w (snd t) \<noteq> None" by auto
  from chapters_loop_ok [OF this, of v 0 "[]" "[]"] obtain spine_items toc_links where
    l: "chapters_loop w v 0 ?G [] [] = Inr (spine_items, toc_links)" by (metis surj_pair)
  from chapters_loop_result [OF l gne] have
    src: "map page_source spine_items = concat (map snd ?G)"
    and la: "list_all2 (\<lambda>link c. link_title link = fst c
                \<and> (\<exists>p \<in> set spine_items. link_href link = page_file_name p
                      \<and> page_source p = hd (snd c))) toc_links ?G"
    by auto
  define bk where "bk = \<lparr>book_identifier = S ''chainsaw-man-colored-v'' @ v,
                       book_title = S ''Chainsaw Man (Digitally Colored) v'' @ v,
                       toc = toc_links, spine = spine_items\<rparr>"
  from a obtain bytes where wr: "write_epub bk = Inr bytes" by blast
  from a l wr have b: "fst (build_epub_for_volume e write_epub w v) = Inr (EpubSaved (epub_path_of v) bk)"
    by (simp add: build_epub_for_volume_def Let_def bk_def epub_path_of_def)
  have titles: "map link_title toc_links = first_seen (map label_of entries)"
    using list_all2_map_eq [OF la] gkeys by simp
  have links: "\<exists>p \<in> set spine_items. link_href link = page_file_name p
              \<and> page_source p = hd (filter (\<lambda>t. label_of t = link_title link) entries)"
    if "link \<in> set toc_links" for link
  proof -
    from list_all2_in_set [OF la that] obtain c where c: "c \<in> set ?G" "link_title link = fst c"
      "\<exists>p \<in> set spine_items. link_href link = page_file_name p \<and> page_source p = hd (snd c)"
      by blast
    with gsnd show ?thesis by simp
  qed
  have len: "length spine_items = length entries"
    using src glen by (metis length_map)
  have order: "map page_source spine_items
            = concat (map (\<lambda>l. filter (\<lambda>t. label_of t = l) entries)
                        (first_seen (map label_of entries)))"
    using src by (simp only: group_chapters_concat)
  have tb: "toc bk = toc_links" "spine bk = spine_items" by (simp_all add: bk_def)
  have "map link_title (toc bk) = first_seen (map label_of entries)"
    unfolding tb by (rule titles)
  moreover have "distinct (map link_title (toc bk))"
    unfolding tb titles by (rule distinct_first_seen)
  moreover have "set (map link_title (toc bk)) = label_of ` set entries"
    unfolding tb titles by (simp add: set_first_seen)
  moreover have "\<forall>link \<in> set (toc bk). \<exists>p \<in> set (spine bk). link_href link = page_file_name p
              \<and> page_source p = hd (filter (\<lambda>t. label_of t = link_title link) entries)"
    unfolding tb using links by blast
  moreover have "length (spine bk) = length entries"
    unfolding tb by (rule len)
  moreover have "map page_source (spine bk)
            = concat (map (\<lambda>l. filter (\<lambda>t. label_of t = l) entries)
                        (first_seen (map label_of entries)))"
    unfolding tb by (rule order)
  moreover have "contiguous (map label_of entries) \<longrightarrow> map page_source (spine bk) = entries"
    unfolding tb order by (auto dest: grouped_contiguous)
  ultimately show "\<exists>bk. fst (build_epub_for_volume e write_epub w v) = Inr (EpubSaved (epub_path_of v) bk)
        \<and> map link_title (toc bk) = first_seen (map label_of entries)
        \<and> distinct (map link_title (toc bk))
        \<and> set (map link_title (toc bk)) = label_of ` set entries
        \<and> (\<forall>link \<in> set (toc bk). \<exists>p \<in> set (spine bk). link_href link = page_file_name p
              \<and> page_source p = hd (filter (\<lambda>t. label_of t = link_title link) entries))
        \<and> length (spine bk) = length entries
        \<and> map page_source (spine bk)
            = concat (map (\<lambda>l. filter (\<lambda>t. label_of t = l) entries)
                        (first_seen (map label_of entries)))
        \<and> (contiguous (map label_of entries) \<longrightarrow> map page_source (spine bk) = entries)"
    using b by blast
qed

theorem epub_toc_and_spine_witness:
  "collect_images_for_volume (os_walk split_env split_world) (S ''01'') = split_entries
   \<and> split_entries \<noteq> []
   \<and> (\<exists>bk. fst (build_epub_for_volume split_env zip_writer split_world (S ''01''))
              = Inr (EpubSaved (epub_path_of (S ''01'')) bk)
        \<and> map link_title (toc bk) = [S ''Chapter 1 - B'', S ''Chapter 1 - A'']
        \<and> length (spine bk) = 3
        \<and> map page_source (spine bk) =
            [(S ''Digital Colored Comics v01/Chapter 1 - B/01.jpg'',
              (S ''chainsaw_man_colored/Digital Colored Comics v01/Chapter 1 - B/01.jpg'')),
             (S ''Digital Colored Comics v01/Chapter 1 - B/03.jpg'',
              (S ''chainsaw_man_colored/Digital Colored Comics v01/Chapter 1 - B/03.jpg'')),
             (S ''Digital Colored Comics v01/Chapter 1 - A/02.jpg'',
              (S ''chainsaw_man_colored/Digital Colored Comics v01/Chapter 1 - A/02.jpg''))])"
proof -
  have c: "collect_images_for_volume (os_walk split_env split_world) (S ''01'') = split_entries"
    by code_simp
  have n: "split_entries \<noteq> []" by (simp add: split_entries_def)
  have f: "\<forall>t \<in> set split_entries. files split_world (snd t) \<noteq> None"
    by (simp add: split_entries_def split_world_def)
  have z: "\<forall>bk. \<exists>bytes. zip_writer bk = Inr bytes" by (simp add: zip_writer_def)
  have fs: "first_seen (map label_of split_entries) = [S ''Chapter 1 - B'', S ''Chapter 1 - A'']"
    by code_simp
  have gr: "concat (map (\<lambda>l. filter (\<lambda>t. label_of t = l) split_entries)
                        [S ''Chapter 1 - B'', S ''Chapter 1 - A'']) =
            [(S ''Digital Colored Comics v01/Chapter 1 - B/01.jpg'',
              (S ''chainsaw_man_colored/Digital Colored Comics v01/Chapter 1 - B/01.jpg'')),
             (S ''Digital Colored Comics v01/Chapter 1 - B/03.jpg'',
              (S ''chainsaw_man_colored/Digital Colored Comics v01/Chapter 1 - B/03.jpg'')),
             (S ''Digital Colored Comics v01/Chapter 1 - A/02.jpg'',
              (S ''chainsaw_man_colored/Digital Colored Comics v01/Chapter 1 - A/02.jpg''))]"
    by code_simp
  have len: "length split_entries = 3" by (simp add: split_entries_def)
  note t = epub_toc_and_spine [of split_env split_world "S ''01''" split_entries zip_writer,
         rule_format, OF conjI [OF c conjI [OF n conjI [OF f z]]], unfolded fs gr len]
  have "\<exists>bk. fst (build_epub_for_volume split_env zip_writer split_world (S ''01''))
              = Inr (EpubSaved (epub_path_of (S ''01'')) bk)
        \<and> map link_title (toc bk) = [S ''Chapter 1 - B'', S ''Chapter 1 - A'']
        \<and> length (spine bk) = 3
        \<and> map page_source (spine bk) =
            [(S ''Digital Colored Comics v01/Chapter 1 - B/01.jpg'',
              (S ''chainsaw_man_colored/Digital Colored Comics v01/Chapter 1 - B/01.jpg'')),
             (S ''Digital Colored Comics v01/Chapter 1 - B/03.jpg'',
              (S ''chainsaw_man_colored/Digital Colored Comics v01/Chapter 1 - B/03.jpg'')),
             (S ''Digital Colored Comics v01/Chapter 1 - A/02.jpg'',
              (S ''chainsaw_man_colored/Digital Colored Comics v01/Chapter 1 - A/02.jpg''))]"
    using t by (elim exE conjE, intro exI conjI) assumption+
  with c n show ?thesis by (intro conjI)
qed

section \<open>What aborts a run\<close>






























text \<open>
  When every request for an image fails, the run goes on to the volumes and returns.
\<close>

lemma run_survives_failed_fetches:
  "fst (main fetches_fail_env empty_world)
     = Inr ([Failed (S ''https://h/view?file=Chainsaw Man (Digitally Colored)/Digital Colored Comics v01/Chapter 1 - Dog/01.jpg'')
               (Some ConnectionError)],
            [NoImages])
   \<and> length (requests (snd (main fetches_fail_env empty_world))) = 3"
  by code_simp

text \<open>
  The EPUB script catches nothing: an error of the package writer on the first volume
  leaves \<open>build_epub_for_volume\<close>, and with it the loop over the volumes.
\<close>

lemma epub_write_error_aborts_run:
  "fst (build_epub_for_volume split_env (\<lambda>bk. Inl (OSError (S ''disk''))) split_world (S ''01''))
     = Inl (OSError (S ''disk''))
   \<and> fst (epub_main split_env (\<lambda>bk. Inl (OSError (S ''disk''))) split_world)
     = Inl (OSError (S ''disk''))"
  by code_simp

end
